theory Spec2Isabelle
  imports Main "HOL-Library.Word"
begin

unbundle bit_operations_syntax

section \<open>Machine integers and library primitives\<close>

text \<open>
  \<^verbatim>\<open>uint32_t\<close> is a 32-bit word: \<open>+\<close> and \<open>-\<close> wrap around, \<open>AND\<close>, \<open>OR\<close>, \<open>NOT\<close> are the
  bitwise operators of C++. The local variables \<^verbatim>\<open>pos\<close> and \<^verbatim>\<open>end\<close> of
  \<^verbatim>\<open>getNextViewMaskGroup\<close> are C++ \<^verbatim>\<open>int\<close>s and are kept as \<open>int\<close>: they stay between
  \<open>-1\<close> and \<open>63\<close>.
\<close>

type_synonym u32 = "32 word"

text \<open>
  What a call can do besides returning a value: fail an \<^verbatim>\<open>assert\<close>, never leave a loop,
  or index a vector outside its bounds.
\<close>

datatype fault = AssertionFailed | NoReturn | OutOfRange

text \<open>
  \<^verbatim>\<open>ffs(3)\<close> of the C library: the 1-based index of the least significant set bit, and 0
  when no bit is set.
\<close>

definition ffs :: "u32 \<Rightarrow> int" where
  "ffs x = (case List.find (bit x) [0..<32] of None \<Rightarrow> 0 | Some i \<Rightarrow> int i + 1)"

text \<open>The compiler builtin \<^verbatim>\<open>__builtin_popcount\<close>: the number of set bits.\<close>

definition builtin_popcount :: "u32 \<Rightarrow> nat" where
  "builtin_popcount x = length (filter (bit x) [0..<32])"

text \<open>
  The C++ expression \<^verbatim>\<open>1 << e\<close> on \<^verbatim>\<open>int\<close>, converted to \<^verbatim>\<open>uint32_t\<close> by the
  bitwise operator that uses it. For \<open>0 \<le> e < 32\<close> it is the single bit \<open>e\<close>. For any other
  shift count C++ leaves the value undefined; the model takes whatever the machine produces
  there as the parameter \<open>oob\<close>, so that every theorem below holds for each possible value.
\<close>

definition shl1 :: "(int \<Rightarrow> u32) \<Rightarrow> int \<Rightarrow> u32" where
  "shl1 oob e = (if 0 \<le> e \<and> e < 32 then push_bit (nat e) 1 else oob e)"

text \<open>
  \<^verbatim>\<open>for (uint32_t i = 0; i <= passIdx; ++i) body\<close>. The counter is a 32-bit word, so with
  \<^verbatim>\<open>passIdx == UINT32_MAX\<close> the condition never fails and the loop does not return.
\<close>

partial_function (option) for_le :: "u32 \<Rightarrow> ('s \<Rightarrow> 's) \<Rightarrow> u32 \<Rightarrow> 's \<Rightarrow> 's option" where
  "for_le passIdx body i s =
     (if i \<le> passIdx then for_le passIdx body (i + 1) (body s) else Some s)"

declare for_le.simps [code]

section \<open>Vulkan and Metal types\<close>

text \<open>
  Constants of the Vulkan headers: \<^verbatim>\<open>VK_ATTACHMENT_UNUSED\<close> is \<^verbatim>\<open>(~0U)\<close>,
  \<^verbatim>\<open>VK_FORMAT_UNDEFINED\<close> is the enumerator 0.
\<close>

type_synonym VkFormat = u32

definition VK_ATTACHMENT_UNUSED :: u32 where
  "VK_ATTACHMENT_UNUSED = NOT 0"

definition VK_FORMAT_UNDEFINED :: VkFormat where
  "VK_FORMAT_UNDEFINED = 0"

datatype VkAttachmentLoadOp =
  VK_ATTACHMENT_LOAD_OP_LOAD | VK_ATTACHMENT_LOAD_OP_CLEAR | VK_ATTACHMENT_LOAD_OP_DONT_CARE

datatype VkAttachmentStoreOp =
  VK_ATTACHMENT_STORE_OP_STORE | VK_ATTACHMENT_STORE_OP_DONT_CARE

datatype MTLLoadAction =
  MTLLoadActionDontCare | MTLLoadActionLoad | MTLLoadActionClear

datatype MTLStoreAction =
  MTLStoreActionDontCare | MTLStoreActionStore | MTLStoreActionMultisampleResolve
  | MTLStoreActionStoreAndMultisampleResolve | MTLStoreActionUnknown

text \<open>The format capabilities a subpass can require of an attachment.\<close>

datatype MVKMTLFmtCaps =
  kMVKMTLFmtCapsRead | kMVKMTLFmtCapsColorAtt | kMVKMTLFmtCapsDSAtt | kMVKMTLFmtCapsResolve

record VkAttachmentReference2 =
  attachment :: u32
  layout :: u32
  aspectMask :: u32

record VkAttachmentDescription2 =
  format :: VkFormat
  samples :: u32
  loadOp :: VkAttachmentLoadOp
  storeOp :: VkAttachmentStoreOp
  stencilLoadOp :: VkAttachmentLoadOp
  stencilStoreOp :: VkAttachmentStoreOp

text \<open>
  The features of the device that the render pass code asks for:
  \<^verbatim>\<open>getPhysicalDevice()->canUseInstancingForMultiview()\<close> and the fields
  \<^verbatim>\<open>combinedStoreResolveAction\<close> and \<^verbatim>\<open>deferredStoreActions\<close> of \<^verbatim>\<open>_pMetalFeatures\<close>.
\<close>

record MVKDevice =
  canUseInstancingForMultiview :: bool
  combinedStoreResolveAction :: bool
  deferredStoreActions :: bool

record MVKRenderSubpass =
  subpassIndex :: u32
  viewMask :: u32
  inputAttachments :: "VkAttachmentReference2 list"
  colorAttachments :: "VkAttachmentReference2 list"
  resolveAttachments :: "VkAttachmentReference2 list"
  depthStencilAttachment :: VkAttachmentReference2
  depthStencilResolveAttachment :: VkAttachmentReference2
  preserveAttachments :: "u32 list"

section \<open>Partitioning a view mask into Metal passes\<close>

text \<open>
  The accessors of \<^verbatim>\<open>MVKRenderSubpass\<close> take the device and the subpass as arguments.
  \<^verbatim>\<open>assert(passIdx < getMultiviewMetalPassCount())\<close> is modelled as checked: a call that
  violates it is the fault \<open>AssertionFailed\<close>. Where the model returns a value, a build
  without assertions returns the same value.
\<close>

subsection \<open>\<^verbatim>\<open>getNextViewMaskGroup\<close>\<close>

lemma and_not_less: "(vm::u32) AND s \<noteq> 0 \<Longrightarrow> unat (vm AND NOT s) < unat vm"
proof -
  assume a: "vm AND s \<noteq> 0"
  have le: "vm AND NOT s \<le> vm" by (simp add: word_and_le2)
  have "vm AND NOT s \<noteq> vm"
  proof
    assume e: "vm AND NOT s = vm"
    have "vm AND s = (vm AND NOT s) AND s" by (simp only: e)
    also have "\<dots> = 0" by (simp add: bit_eq_iff bit_simps)
    finally show False using a by simp
  qed
  with le have "vm AND NOT s < vm" by simp
  then show ?thesis by (simp add: word_less_nat_alt)
qed

text \<open>
  The \<^verbatim>\<open>while (viewMask & (1 << end))\<close> loop. The state is the remaining mask, \<^verbatim>\<open>end\<close> and the
  group mask; the source writes \<^verbatim>\<open>*groupMask\<close> only when the pointer is not null, the model
  always computes it and the caller that passed \<^verbatim>\<open>nullptr\<close> drops it.
\<close>

function getNextViewMaskGroup_while ::
  "(int \<Rightarrow> u32) \<Rightarrow> u32 \<Rightarrow> int \<Rightarrow> u32 \<Rightarrow> u32 \<times> int \<times> u32" where
  "getNextViewMaskGroup_while oob vm e gm =
     (if vm AND shl1 oob e \<noteq> 0
      then getNextViewMaskGroup_while oob (vm AND NOT (shl1 oob e)) (e + 1)
             (gm OR (vm AND shl1 oob e))
      else (vm, e, gm))"
  by pat_completeness auto
termination
  by (relation "measure (\<lambda>(oob, vm, e, gm). unat vm)") (auto intro: and_not_less)

declare getNextViewMaskGroup_while.simps [simp del]

text \<open>
  The result is the remaining mask (the return value), \<^verbatim>\<open>*startView\<close>, \<^verbatim>\<open>*viewCount\<close> and
  \<^verbatim>\<open>*groupMask\<close>.
\<close>

definition getNextViewMaskGroup :: "(int \<Rightarrow> u32) \<Rightarrow> u32 \<Rightarrow> u32 \<times> u32 \<times> u32 \<times> u32" where
  "getNextViewMaskGroup oob vmask =
     (let pos = ffs vmask - 1 in
      case getNextViewMaskGroup_while oob vmask pos 0 of
        (vmask', e, gm) \<Rightarrow> (vmask', word_of_int pos, word_of_int (e - pos), gm))"

lemma nonzero_has_bit: "(x::u32) \<noteq> 0 \<Longrightarrow> \<exists>i<32. bit x i"
proof (rule ccontr)
  assume nz: "x \<noteq> 0" and "\<not> (\<exists>i<32. bit x i)"
  then have "\<And>i. \<not> bit x i" using bit_imp_le_length [of x] by fastforce
  then have "x = 0" by (simp add: bit_eq_iff)
  with nz show False by simp
qed

lemma ffs_nonzero:
  assumes "x \<noteq> 0"
  obtains p where "p < 32" "ffs x = int p + 1" "bit x p" "\<forall>j<p. \<not> bit x j"
proof -
  from assms obtain i where i: "i < 32" "bit x i" using nonzero_has_bit by blast
  then have "List.find (bit x) [0..<32] \<noteq> None"
    by (auto simp: find_None_iff)
  then obtain p where f: "List.find (bit x) [0..<32] = Some p" by blast
  then obtain k where k: "k < length [0..<32]" "bit x ([0..<32] ! k)" "p = [0..<32] ! k"
      "\<forall>j<k. \<not> bit x ([0..<32] ! j)"
    unfolding find_Some_iff by blast
  have pk: "p = k" using k(1,3) by simp
  have "p < 32" using k(1) pk by simp
  moreover have "ffs x = int p + 1" by (simp add: ffs_def f)
  moreover have "bit x p" using k(1,2) pk by simp
  moreover have "\<forall>j<p. \<not> bit x j"
  proof (intro allI impI)
    fix j assume "j < p"
    then have "j < k" using pk by simp
    moreover from this have "[0..<32] ! j = j" using k(1) by simp
    ultimately show "\<not> bit x j" using k(4) by metis
  qed
  ultimately show ?thesis using that by blast
qed

lemma while_fst_le: "fst (getNextViewMaskGroup_while oob vm e gm) \<le> vm"
proof (induction oob vm e gm rule: getNextViewMaskGroup_while.induct)
  case (1 oob vm e gm)
  show ?case
  proof (cases "vm AND shl1 oob e \<noteq> 0")
    case True
    have "fst (getNextViewMaskGroup_while oob vm e gm)
          = fst (getNextViewMaskGroup_while oob (vm AND NOT (shl1 oob e)) (e + 1)
                  (gm OR (vm AND shl1 oob e)))"
      using True by (subst getNextViewMaskGroup_while.simps) simp
    also have "\<dots> \<le> vm AND NOT (shl1 oob e)" using 1 True by simp
    also have "\<dots> \<le> vm" by (simp add: word_and_le2)
    finally show ?thesis .
  next
    case False
    then show ?thesis by (subst getNextViewMaskGroup_while.simps) simp
  qed
qed

lemma getNextViewMaskGroup_less:
  assumes "vmask \<noteq> 0"
  shows "unat (fst (getNextViewMaskGroup oob vmask)) < unat vmask"
proof -
  from assms obtain p where p: "p < 32" "ffs vmask = int p + 1" "bit vmask p"
    by (rule ffs_nonzero)
  have s: "shl1 oob (int p) = push_bit p 1" using p(1) by (simp add: shl1_def)
  have nz: "vmask AND shl1 oob (int p) \<noteq> 0"
  proof
    assume "vmask AND shl1 oob (int p) = 0"
    then have "\<not> bit (vmask AND push_bit p 1) p" by (simp add: s)
    then show False using p(1,3) by (simp add: bit_simps)
  qed
  have "fst (getNextViewMaskGroup oob vmask)
        = fst (getNextViewMaskGroup_while oob vmask (int p) 0)"
    by (simp add: getNextViewMaskGroup_def p(2) split: prod.splits)
  also have "\<dots> = fst (getNextViewMaskGroup_while oob (vmask AND NOT (shl1 oob (int p)))
                      (int p + 1) (0 OR (vmask AND shl1 oob (int p))))"
    using nz by (subst getNextViewMaskGroup_while.simps) simp
  also have "\<dots> \<le> vmask AND NOT (shl1 oob (int p))" by (rule while_fst_le)
  finally have "unat (fst (getNextViewMaskGroup oob vmask))
                \<le> unat (vmask AND NOT (shl1 oob (int p)))"
    by (simp add: word_le_nat_alt)
  also have "\<dots> < unat vmask" using nz by (rule and_not_less)
  finally show ?thesis .
qed

lemma getNextViewMaskGroup_less_pair:
  "vmask \<noteq> 0 \<Longrightarrow> (x, y) = getNextViewMaskGroup oob vmask \<Longrightarrow> unat x < unat vmask"
  using getNextViewMaskGroup_less [of vmask oob] by (metis fst_conv)

subsection \<open>\<^verbatim>\<open>getMultiviewMetalPassCount\<close>\<close>

function getMultiviewMetalPassCount_for :: "(int \<Rightarrow> u32) \<Rightarrow> u32 \<Rightarrow> u32 \<Rightarrow> u32" where
  "getMultiviewMetalPassCount_for oob vmask count =
     (if vmask \<noteq> 0
      then getMultiviewMetalPassCount_for oob (fst (getNextViewMaskGroup oob vmask)) (count + 1)
      else count)"
  by pat_completeness auto
termination
  by (relation "measure (\<lambda>(oob, vmask, count). unat vmask)")
     (auto intro: getNextViewMaskGroup_less)

declare getMultiviewMetalPassCount_for.simps [simp del]

definition getMultiviewMetalPassCount :: "(int \<Rightarrow> u32) \<Rightarrow> MVKDevice \<Rightarrow> MVKRenderSubpass \<Rightarrow> u32" where
  "getMultiviewMetalPassCount oob dev sp =
     (if viewMask sp = 0 then 0
      else if \<not> canUseInstancingForMultiview dev then of_nat (builtin_popcount (viewMask sp))
      else getMultiviewMetalPassCount_for oob (viewMask sp) 0)"

subsection \<open>\<^verbatim>\<open>getFirstViewIndexInMetalPass\<close>\<close>

text \<open>
  \<^verbatim>\<open>while (passIdx-- > 0 && viewCount-- > 0) { startView++; }\<close> on three \<^verbatim>\<open>uint32_t\<close>s: each
  test decrements its operand whether it succeeds or not, so leaving the loop with
  \<^verbatim>\<open>passIdx == 0\<close> wraps \<^verbatim>\<open>passIdx\<close> to \<^verbatim>\<open>UINT32_MAX\<close>. The result is
  \<open>(passIdx, viewCount, startView)\<close>.
\<close>

function getFirstViewIndexInMetalPass_while :: "u32 \<Rightarrow> u32 \<Rightarrow> u32 \<Rightarrow> u32 \<times> u32 \<times> u32" where
  "getFirstViewIndexInMetalPass_while passIdx viewCount startView =
     (if passIdx > 0
      then (if viewCount > 0
            then getFirstViewIndexInMetalPass_while (passIdx - 1) (viewCount - 1) (startView + 1)
            else (passIdx - 1, viewCount - 1, startView))
      else (passIdx - 1, viewCount, startView))"
  by pat_completeness auto
termination
  by (relation "measure (\<lambda>(passIdx, viewCount, startView). unat passIdx)")
     (auto simp: word_greater_zero_iff unat_minus_one unat_gt_0 [symmetric])

declare getFirstViewIndexInMetalPass_while.simps [simp del]

text \<open>
  The loop of the unrolled case, \<^verbatim>\<open>for (uint32_t i = 0; mask != 0; ++i)\<close>; its counter
  \<^verbatim>\<open>i\<close> is never read.
\<close>

function getFirstViewIndexInMetalPass_for ::
  "(int \<Rightarrow> u32) \<Rightarrow> u32 \<Rightarrow> u32 \<Rightarrow> u32 \<Rightarrow> u32 \<Rightarrow> u32" where
  "getFirstViewIndexInMetalPass_for oob vmask passIdx startView viewCount =
     (if vmask \<noteq> 0
      then (case getNextViewMaskGroup oob vmask of
              (vmask', sv, vc, gm) \<Rightarrow>
                (case getFirstViewIndexInMetalPass_while passIdx vc sv of
                   (passIdx', vc', sv') \<Rightarrow>
                     getFirstViewIndexInMetalPass_for oob vmask' passIdx' sv' vc'))
      else startView)"
  by pat_completeness auto
termination
  by (relation "measure (\<lambda>(oob, vmask, passIdx, startView, viewCount). unat vmask)")
     (auto intro: getNextViewMaskGroup_less_pair)

declare getFirstViewIndexInMetalPass_for.simps [simp del]

definition getFirstViewIndexInMetalPass ::
  "(int \<Rightarrow> u32) \<Rightarrow> MVKDevice \<Rightarrow> MVKRenderSubpass \<Rightarrow> u32 \<Rightarrow> fault + u32" where
  "getFirstViewIndexInMetalPass oob dev sp passIdx =
     (if viewMask sp = 0 then Inr 0
      else if \<not> passIdx < getMultiviewMetalPassCount oob dev sp then Inl AssertionFailed
      else if \<not> canUseInstancingForMultiview dev
      then Inr (getFirstViewIndexInMetalPass_for oob (viewMask sp) passIdx 0 0)
      else (case for_le passIdx
                   (\<lambda>(vmask, startView).
                      case getNextViewMaskGroup oob vmask of
                        (vmask', sv, vc, gm) \<Rightarrow> (vmask', sv))
                   0 (viewMask sp, 0) of
              None \<Rightarrow> Inl NoReturn
            | Some (vmask, startView) \<Rightarrow> Inr startView))"

subsection \<open>\<^verbatim>\<open>getViewMaskGroupForMetalPass\<close>\<close>

definition getViewMaskGroupForMetalPass ::
  "(int \<Rightarrow> u32) \<Rightarrow> MVKDevice \<Rightarrow> MVKRenderSubpass \<Rightarrow> u32 \<Rightarrow> fault + u32" where
  "getViewMaskGroupForMetalPass oob dev sp passIdx =
     (if viewMask sp = 0 then Inr 0
      else if \<not> passIdx < getMultiviewMetalPassCount oob dev sp then Inl AssertionFailed
      else if \<not> canUseInstancingForMultiview dev
      then (case getFirstViewIndexInMetalPass oob dev sp passIdx of
              Inl f \<Rightarrow> Inl f
            | Inr v \<Rightarrow> Inr (shl1 oob (uint v)))
      else (case for_le passIdx
                   (\<lambda>(vmask, groupMask).
                      case getNextViewMaskGroup oob vmask of
                        (vmask', sv, vc, gm) \<Rightarrow> (vmask', gm))
                   0 (viewMask sp, 0) of
              None \<Rightarrow> Inl NoReturn
            | Some (vmask, groupMask) \<Rightarrow> Inr groupMask))"

subsection \<open>\<^verbatim>\<open>getViewCountInMetalPass\<close> and \<^verbatim>\<open>getViewCountUpToMetalPass\<close>\<close>

definition getViewCountInMetalPass ::
  "(int \<Rightarrow> u32) \<Rightarrow> MVKDevice \<Rightarrow> MVKRenderSubpass \<Rightarrow> u32 \<Rightarrow> fault + u32" where
  "getViewCountInMetalPass oob dev sp passIdx =
     (if viewMask sp = 0 then Inr 0
      else if \<not> passIdx < getMultiviewMetalPassCount oob dev sp then Inl AssertionFailed
      else if \<not> canUseInstancingForMultiview dev then Inr 1
      else (case for_le passIdx
                   (\<lambda>(vmask, viewCount).
                      case getNextViewMaskGroup oob vmask of
                        (vmask', sv, vc, gm) \<Rightarrow> (vmask', vc))
                   0 (viewMask sp, 0) of
              None \<Rightarrow> Inl NoReturn
            | Some (vmask, viewCount) \<Rightarrow> Inr viewCount))"

text \<open>This accessor has no assertion on \<^verbatim>\<open>passIdx\<close>.\<close>

definition getViewCountUpToMetalPass ::
  "(int \<Rightarrow> u32) \<Rightarrow> MVKDevice \<Rightarrow> MVKRenderSubpass \<Rightarrow> u32 \<Rightarrow> fault + u32" where
  "getViewCountUpToMetalPass oob dev sp passIdx =
     (if viewMask sp = 0 then Inr 0
      else if \<not> canUseInstancingForMultiview dev then Inr (passIdx + 1)
      else (case for_le passIdx
                   (\<lambda>(vmask, totalViewCount).
                      case getNextViewMaskGroup oob vmask of
                        (vmask', sv, vc, gm) \<Rightarrow> (vmask', totalViewCount + vc))
                   0 (viewMask sp, 0) of
              None \<Rightarrow> Inl NoReturn
            | Some (vmask, totalViewCount) \<Rightarrow> Inr totalViewCount))"

section \<open>Subpass accessors\<close>

text \<open>
  \<^verbatim>\<open>operator[]\<close> of a vector: reading outside the bounds is a fault of the model, so that a
  result \<open>Inr v\<close> says that every index used on the way was in range.
\<close>

definition vec_at :: "'a list \<Rightarrow> u32 \<Rightarrow> fault + 'a" where
  "vec_at xs i = (if unat i < length xs then Inr (xs ! unat i) else Inl OutOfRange)"

text \<open>
  Modelled from the spec: \<^verbatim>\<open>MVKRenderSubpass::isMultiview\<close> is defined in the header
  \<^verbatim>\<open>MVKRenderPass.h\<close>, which is not among the sources. The spec: "view-mask (0 = not
  multiview)".
\<close>

definition isMultiview :: "MVKRenderSubpass \<Rightarrow> bool" where
  "isMultiview sp \<longleftrightarrow> viewMask sp \<noteq> 0"

record MVKRenderPassAttachment =
  info :: VkAttachmentDescription2
  attachmentIndex :: u32
  firstUseSubpassIdx :: u32
  lastUseSubpassIdx :: u32
  firstUseViewMasks :: "u32 list"
  lastUseViewMasks :: "u32 list"

record MVKRenderPass =
  subpasses :: "MVKRenderSubpass list"
  attachments :: "MVKRenderPassAttachment list"

definition getFormat :: "MVKRenderPassAttachment \<Rightarrow> VkFormat" where
  "getFormat att = format (info att)"

definition getColorAttachmentFormat ::
  "MVKRenderPass \<Rightarrow> MVKRenderSubpass \<Rightarrow> u32 \<Rightarrow> fault + VkFormat" where
  "getColorAttachmentFormat rp sp colorAttIdx =
     (if unat colorAttIdx < length (colorAttachments sp)
      then (case vec_at (colorAttachments sp) colorAttIdx of
              Inl f \<Rightarrow> Inl f
            | Inr ca \<Rightarrow>
                (let rpAttIdx = attachment ca in
                 if rpAttIdx = VK_ATTACHMENT_UNUSED then Inr VK_FORMAT_UNDEFINED
                 else (case vec_at (attachments rp) rpAttIdx of
                         Inl f \<Rightarrow> Inl f
                       | Inr att \<Rightarrow> Inr (getFormat att))))
      else Inr VK_FORMAT_UNDEFINED)"

definition isColorAttachmentUsed :: "MVKRenderSubpass \<Rightarrow> u32 \<Rightarrow> fault + bool" where
  "isColorAttachmentUsed sp colorAttIdx =
     (if unat colorAttIdx \<ge> length (colorAttachments sp) then Inr False
      else (case vec_at (colorAttachments sp) colorAttIdx of
              Inl f \<Rightarrow> Inl f
            | Inr ca \<Rightarrow> Inr (attachment ca \<noteq> VK_ATTACHMENT_UNUSED)))"

definition isColorAttachmentAlsoInputAttachment :: "MVKRenderSubpass \<Rightarrow> u32 \<Rightarrow> fault + bool" where
  "isColorAttachmentAlsoInputAttachment sp colorAttIdx =
     (if unat colorAttIdx \<ge> length (colorAttachments sp) then Inr False
      else (case vec_at (colorAttachments sp) colorAttIdx of
              Inl f \<Rightarrow> Inl f
            | Inr ca \<Rightarrow>
                (let rspAttIdx = attachment ca in
                 if rspAttIdx = VK_ATTACHMENT_UNUSED then Inr False
                 else Inr (list_ex (\<lambda>inAtt. attachment inAtt = rspAttIdx)
                             (inputAttachments sp)))))"

text \<open>
  \<^verbatim>\<open>MVKMTLFmtCaps\<close> is a set of flag bits in the source (its declaration is in
  \<^verbatim>\<open>MVKPixelFormats.h\<close>, not among the sources): \<^verbatim>\<open>mvkEnableFlags\<close> is the union, the
  test \<^verbatim>\<open>if (reqCaps)\<close> is the test for a flag being set, \<^verbatim>\<open>mvkAreAllFlagsEnabled\<close> is
  the subset test.
\<close>

definition getRequiredFormatCapabilitiesForAttachmentAt ::
  "MVKRenderSubpass \<Rightarrow> u32 \<Rightarrow> MVKMTLFmtCaps set" where
  "getRequiredFormatCapabilitiesForAttachmentAt sp rpAttIdx =
     (if list_ex (\<lambda>att. attachment att = rpAttIdx) (inputAttachments sp)
      then {kMVKMTLFmtCapsRead} else {})
     \<union> (if list_ex (\<lambda>att. attachment att = rpAttIdx) (colorAttachments sp)
        then {kMVKMTLFmtCapsColorAtt} else {})
     \<union> (if list_ex (\<lambda>att. attachment att = rpAttIdx) (resolveAttachments sp)
        then {kMVKMTLFmtCapsResolve} else {})
     \<union> (if attachment (depthStencilAttachment sp) = rpAttIdx
        then {kMVKMTLFmtCapsDSAtt} else {})
     \<union> (if attachment (depthStencilResolveAttachment sp) = rpAttIdx
        then {kMVKMTLFmtCapsResolve} else {})"

section \<open>Attachments of a render pass\<close>

subsection \<open>First and last use\<close>

definition isFirstUseOfAttachment ::
  "MVKRenderPassAttachment \<Rightarrow> MVKRenderSubpass \<Rightarrow> fault + bool" where
  "isFirstUseOfAttachment att subpass =
     (if isMultiview subpass
      then (case vec_at (firstUseViewMasks att) (subpassIndex subpass) of
              Inl f \<Rightarrow> Inl f
            | Inr m \<Rightarrow> Inr (m = viewMask subpass))
      else Inr (firstUseSubpassIdx att = subpassIndex subpass))"

definition isLastUseOfAttachment ::
  "MVKRenderPassAttachment \<Rightarrow> MVKRenderSubpass \<Rightarrow> fault + bool" where
  "isLastUseOfAttachment att subpass =
     (if isMultiview subpass
      then (case vec_at (lastUseViewMasks att) (subpassIndex subpass) of
              Inl f \<Rightarrow> Inl f
            | Inr m \<Rightarrow> Inr (m = viewMask subpass))
      else Inr (lastUseSubpassIdx att = subpassIndex subpass))"

subsection \<open>\<^verbatim>\<open>getMTLStoreAction\<close>\<close>

text \<open>
  \<^verbatim>\<open>mvkMTLStoreActionFromVkAttachmentStoreOp\<close> and
  \<^verbatim>\<open>mvkMTLLoadActionFromVkAttachmentLoadOp\<close> are defined in \<^verbatim>\<open>mvk_datatypes\<close>, not among the
  sources: the functions that call them take them as the parameters \<open>fromStoreOp\<close> and
  \<open>fromLoadOp\<close>. The operator \<^verbatim>\<open>||\<close> evaluates its right operand only when the left one is
  false, so \<^verbatim>\<open>isLastUseOfAttachment\<close> is called only without the override and when the
  entire attachment is rendered.
\<close>

definition getMTLStoreAction ::
  "(VkAttachmentStoreOp \<Rightarrow> bool \<Rightarrow> bool \<Rightarrow> MTLStoreAction) \<Rightarrow> MVKDevice
   \<Rightarrow> MVKRenderPassAttachment \<Rightarrow> MVKRenderSubpass
   \<Rightarrow> bool \<Rightarrow> bool \<Rightarrow> bool \<Rightarrow> bool \<Rightarrow> bool \<Rightarrow> bool \<Rightarrow> fault + MTLStoreAction" where
  "getMTLStoreAction fromStoreOp dev att subpass isRenderingEntireAttachment
     isMemorylessAttachment hasResolveAttachment canResolveFormat isStencil storeOverride =
     (if hasResolveAttachment \<and> canResolveFormat \<and> \<not> combinedStoreResolveAction dev
      then Inr MTLStoreActionMultisampleResolve
      else if isMemorylessAttachment
      then Inr (if hasResolveAttachment then MTLStoreActionMultisampleResolve
                else MTLStoreActionDontCare)
      else if storeOverride \<or> \<not> isRenderingEntireAttachment
      then Inr (if hasResolveAttachment \<and> canResolveFormat
                then MTLStoreActionStoreAndMultisampleResolve else MTLStoreActionStore)
      else (case isLastUseOfAttachment att subpass of
              Inl f \<Rightarrow> Inl f
            | Inr lastUse \<Rightarrow>
                if \<not> lastUse
                then Inr (if hasResolveAttachment \<and> canResolveFormat
                          then MTLStoreActionStoreAndMultisampleResolve
                          else MTLStoreActionStore)
                else Inr (fromStoreOp
                            (if isStencil then stencilStoreOp (info att) else storeOp (info att))
                            hasResolveAttachment canResolveFormat)))"

subsection \<open>\<^verbatim>\<open>populateMTLRenderPassAttachmentDescriptor\<close>\<close>

text \<open>
  What the function reads of the image view: whether its texture is memoryless (the value of
  the local \<^verbatim>\<open>isMemorylessAttachment\<close>, which is false where \<^verbatim>\<open>MVK_APPLE_SILICON\<close> is not
  set) and whether its pixel format has a depth and a stencil component. Of the Metal
  descriptor the model keeps the two actions.
\<close>

record MVKImageView =
  isMemoryless :: bool
  isDepthFormat :: bool
  isStencilFormat :: bool

record MTLRenderPassAttachmentDescriptor =
  loadAction :: MTLLoadAction
  storeAction :: MTLStoreAction

definition populateMTLRenderPassAttachmentDescriptor ::
  "(VkAttachmentLoadOp \<Rightarrow> MTLLoadAction)
   \<Rightarrow> (VkAttachmentStoreOp \<Rightarrow> bool \<Rightarrow> bool \<Rightarrow> MTLStoreAction) \<Rightarrow> MVKDevice
   \<Rightarrow> MVKRenderPassAttachment \<Rightarrow> MTLRenderPassAttachmentDescriptor \<Rightarrow> MVKRenderSubpass
   \<Rightarrow> MVKImageView \<Rightarrow> bool \<Rightarrow> bool \<Rightarrow> bool \<Rightarrow> bool \<Rightarrow> bool
   \<Rightarrow> fault + (MTLRenderPassAttachmentDescriptor \<times> bool)" where
  "populateMTLRenderPassAttachmentDescriptor fromLoadOp fromStoreOp dev att mtlAttDesc subpass
     imageView isRenderingEntireAttachment hasResolveAttachment canResolveFormat isStencil
     loadOverride =
     (let isMemorylessAttachment = isMemoryless imageView in
      case (if loadOverride \<or> \<not> isRenderingEntireAttachment then Inr MTLLoadActionLoad
            else (case isFirstUseOfAttachment att subpass of
                    Inl f \<Rightarrow> Inl f
                  | Inr firstUse \<Rightarrow>
                      if \<not> firstUse then Inr MTLLoadActionLoad
                      else Inr (fromLoadOp (if isStencil then stencilLoadOp (info att)
                                            else loadOp (info att))))) of
        Inl f \<Rightarrow> Inl f
      | Inr la \<Rightarrow>
          (let mtlLA = (if isMemorylessAttachment \<and> la = MTLLoadActionLoad
                        then MTLLoadActionDontCare else la);
               desc = mtlAttDesc\<lparr>loadAction := mtlLA\<rparr>
           in case (if deferredStoreActions dev then Inr MTLStoreActionUnknown
                    else if isStencilFormat imageView \<and> \<not> isStencil
                            \<and> \<not> isDepthFormat imageView
                    then Inr MTLStoreActionDontCare
                    else getMTLStoreAction fromStoreOp dev att subpass
                           isRenderingEntireAttachment isMemorylessAttachment
                           hasResolveAttachment canResolveFormat isStencil False) of
                Inl f \<Rightarrow> Inl f
              | Inr sa \<Rightarrow> Inr (desc\<lparr>storeAction := sa\<rparr>, mtlLA = MTLLoadActionClear)))"

subsection \<open>\<^verbatim>\<open>shouldClearAttachment\<close>\<close>

definition shouldClearAttachment ::
  "MVKRenderPassAttachment \<Rightarrow> MVKRenderSubpass \<Rightarrow> bool \<Rightarrow> fault + bool" where
  "shouldClearAttachment att subpass isStencil =
     (let clearRequested =
            ((if isStencil then stencilLoadOp (info att) else loadOp (info att))
             = VK_ATTACHMENT_LOAD_OP_CLEAR)
      in if isMultiview subpass
         then (case vec_at (firstUseViewMasks att) (subpassIndex subpass) of
                 Inl f \<Rightarrow> Inl f
               | Inr m \<Rightarrow> if m = 0 then Inr False else Inr clearRequested)
         else if subpassIndex subpass \<noteq> firstUseSubpassIdx att then Inr False
         else Inr clearRequested)"

subsection \<open>\<^verbatim>\<open>validateFormat\<close> and the construction of an attachment\<close>

text \<open>
  The pixel format service of the device: \<^verbatim>\<open>isSupportedOrSubstitutable\<close>, and
  \<^verbatim>\<open>getCapabilities(getMTLPixelFormat(format))\<close> as one function of the Vulkan format.
\<close>

record MVKPixelFormats =
  isSupportedOrSubstitutable :: "VkFormat \<Rightarrow> bool"
  getCapabilities :: "VkFormat \<Rightarrow> MVKMTLFmtCaps set"

text \<open>
  The loop over the subpasses of the render pass. The state is the attachment and whether
  \<^verbatim>\<open>setConfigurationResult\<close> has been called with an error. The two \<^verbatim>\<open>std::for_each\<close>
  calls are the \<open>map\<close> over the last-use masks and the \<open>fold\<close> that strips the earlier
  first-use masks from the local \<^verbatim>\<open>viewMask\<close>.
\<close>

fun validateFormat_for ::
  "MVKPixelFormats \<Rightarrow> MVKRenderSubpass list \<Rightarrow> MVKRenderPassAttachment \<times> bool
   \<Rightarrow> MVKRenderPassAttachment \<times> bool" where
  "validateFormat_for pixFmts [] (att, err) = (att, err)"
| "validateFormat_for pixFmts (subPass # rest) (att, err) =
     (let reqCaps = getRequiredFormatCapabilitiesForAttachmentAt subPass (attachmentIndex att)
      in if reqCaps \<noteq> {}
         then (let spIdx = subpassIndex subPass;
                   att1 = att\<lparr>firstUseSubpassIdx := min spIdx (firstUseSubpassIdx att),
                              lastUseSubpassIdx := max spIdx (lastUseSubpassIdx att)\<rparr>;
                   att2 = (if isMultiview subPass
                           then att1\<lparr>lastUseViewMasks :=
                                        map (\<lambda>m. m AND NOT (viewMask subPass))
                                          (lastUseViewMasks att1) @ [viewMask subPass],
                                      firstUseViewMasks :=
                                        firstUseViewMasks att1
                                        @ [fold (\<lambda>m v. v AND NOT m) (firstUseViewMasks att1)
                                             (viewMask subPass)]\<rparr>
                           else att1);
                   availCaps = getCapabilities pixFmts (format (info att))
                               \<union> {kMVKMTLFmtCapsResolve}
               in validateFormat_for pixFmts rest (att2, err \<or> \<not> reqCaps \<subseteq> availCaps))
         else validateFormat_for pixFmts rest (att, err))"

text \<open>
  \<^verbatim>\<open>MVKRenderPass::isMultiview\<close> reads \<^verbatim>\<open>_subpasses[0]\<close>: in a render pass without
  subpasses that is a read outside the vector.
\<close>

definition MVKRenderPass_isMultiview :: "MVKRenderPass \<Rightarrow> fault + bool" where
  "MVKRenderPass_isMultiview rp =
     (case vec_at (subpasses rp) 0 of
        Inl f \<Rightarrow> Inl f
      | Inr sp \<Rightarrow> Inr (isMultiview sp))"

text \<open>
  \<^verbatim>\<open>kMVKUndefinedLargeUInt32\<close> is a constant of \<^verbatim>\<open>MVKFoundation.h\<close>, not among the sources,
  and is a parameter here. The test \<^verbatim>\<open>if (_renderPass->isMultiview())\<close> guards the two
  \<^verbatim>\<open>reserve\<close> calls, which change the capacity of the vectors and not their contents: the
  model evaluates the test, which can fault, and both of its branches go on alike.
\<close>

definition validateFormat ::
  "MVKPixelFormats \<Rightarrow> u32 \<Rightarrow> MVKRenderPass \<Rightarrow> MVKRenderPassAttachment
   \<Rightarrow> fault + (MVKRenderPassAttachment \<times> bool)" where
  "validateFormat pixFmts kMVKUndefinedLargeUInt32 rp att =
     (let err = \<not> isSupportedOrSubstitutable pixFmts (format (info att));
          att0 = att\<lparr>firstUseSubpassIdx := kMVKUndefinedLargeUInt32, lastUseSubpassIdx := 0\<rparr>
      in case MVKRenderPass_isMultiview rp of
           Inl f \<Rightarrow> Inl f
         | Inr multiview \<Rightarrow> Inr (validateFormat_for pixFmts (subpasses rp) (att0, err)))"

text \<open>
  The constructor \<^verbatim>\<open>MVKRenderPassAttachment(renderPass, pCreateInfo)\<close>: a new attachment has
  empty mask vectors, takes the next attachment index of the render pass and validates its
  format against the subpasses, which the render pass has already built.
\<close>

definition new_MVKRenderPassAttachment ::
  "MVKPixelFormats \<Rightarrow> u32 \<Rightarrow> MVKRenderPass \<Rightarrow> VkAttachmentDescription2
   \<Rightarrow> fault + (MVKRenderPassAttachment \<times> bool)" where
  "new_MVKRenderPassAttachment pixFmts kMVKUndefinedLargeUInt32 rp pCreateInfo =
     validateFormat pixFmts kMVKUndefinedLargeUInt32 rp
       \<lparr>info = pCreateInfo, attachmentIndex = of_nat (length (attachments rp)),
        firstUseSubpassIdx = 0, lastUseSubpassIdx = 0,
        firstUseViewMasks = [], lastUseViewMasks = []\<rparr>"

section \<open>Example values\<close>

definition unused_ref :: VkAttachmentReference2 where
  "unused_ref = \<lparr>attachment = VK_ATTACHMENT_UNUSED, layout = 0, aspectMask = 0\<rparr>"

text \<open>A subpass without attachments, with the given index and view mask.\<close>

definition bare_subpass :: "u32 \<Rightarrow> u32 \<Rightarrow> MVKRenderSubpass" where
  "bare_subpass idx vmask =
     \<lparr>subpassIndex = idx, viewMask = vmask, inputAttachments = [], colorAttachments = [],
      resolveAttachments = [], depthStencilAttachment = unused_ref,
      depthStencilResolveAttachment = unused_ref, preserveAttachments = []\<rparr>"

definition unrolling_device :: MVKDevice where
  "unrolling_device =
     \<lparr>canUseInstancingForMultiview = False, combinedStoreResolveAction = True,
      deferredStoreActions = False\<rparr>"

definition instancing_device :: MVKDevice where
  "instancing_device =
     \<lparr>canUseInstancingForMultiview = True, combinedStoreResolveAction = True,
      deferredStoreActions = False\<rparr>"

section \<open>Definitions used in the statements and proofs\<close>

text \<open>
  The clumps of a view mask, as \<^verbatim>\<open>getNextViewMaskGroup\<close> returns them one after another:
  each entry is the remaining mask, the first view, the view count and the group mask.
\<close>

function clumps :: "(int \<Rightarrow> u32) \<Rightarrow> u32 \<Rightarrow> (u32 \<times> u32 \<times> u32 \<times> u32) list" where
  "clumps oob vmask =
     (if vmask \<noteq> 0
      then getNextViewMaskGroup oob vmask # clumps oob (fst (getNextViewMaskGroup oob vmask))
      else [])"
  by pat_completeness auto
termination
  by (relation "measure (\<lambda>(oob, vmask). unat vmask)") (auto intro: getNextViewMaskGroup_less)

declare clumps.simps [simp del]

definition clump_count :: "u32 \<times> u32 \<times> u32 \<times> u32 \<Rightarrow> u32" where
  "clump_count c = (case c of (r, sv, vc, g) \<Rightarrow> vc)"

definition clump_group :: "u32 \<times> u32 \<times> u32 \<times> u32 \<Rightarrow> u32" where
  "clump_group c = (case c of (r, sv, vc, g) \<Rightarrow> g)"

definition clump_start :: "u32 \<times> u32 \<times> u32 \<times> u32 \<Rightarrow> u32" where
  "clump_start c = (case c of (r, sv, vc, g) \<Rightarrow> sv)"

text \<open>
  The view masks of the multiview subpasses that reference the attachment \<open>rpAttIdx\<close>, in
  the order of the subpasses; and what \<^verbatim>\<open>validateFormat\<close> does to the two mask vectors
  for one such subpass.
\<close>

definition referencing_view_masks :: "MVKRenderPass \<Rightarrow> u32 \<Rightarrow> u32 list" where
  "referencing_view_masks rp rpAttIdx =
     map viewMask
       (filter (\<lambda>sp. getRequiredFormatCapabilitiesForAttachmentAt sp rpAttIdx \<noteq> {}
                      \<and> isMultiview sp)
          (subpasses rp))"

definition push_first_use :: "u32 \<Rightarrow> u32 list \<Rightarrow> u32 list" where
  "push_first_use vm fs = fs @ [fold (\<lambda>m v. v AND NOT m) fs vm]"

definition push_last_use :: "u32 \<Rightarrow> u32 list \<Rightarrow> u32 list" where
  "push_last_use vm ls = map (\<lambda>m. m AND NOT vm) ls @ [vm]"

section \<open>Example render passes\<close>

definition color_ref :: "u32 \<Rightarrow> VkAttachmentReference2" where
  "color_ref i = \<lparr>attachment = i, layout = 0, aspectMask = 0\<rparr>"

definition color_subpass :: "u32 \<Rightarrow> u32 \<Rightarrow> u32 list \<Rightarrow> MVKRenderSubpass" where
  "color_subpass idx vmask atts =
     (bare_subpass idx vmask)\<lparr>colorAttachments := map color_ref atts\<rparr>"

definition example_pixel_formats :: MVKPixelFormats where
  "example_pixel_formats =
     \<lparr>isSupportedOrSubstitutable = (\<lambda>f. True),
      getCapabilities = (\<lambda>f. {kMVKMTLFmtCapsRead, kMVKMTLFmtCapsColorAtt})\<rparr>"

definition clear_description :: VkAttachmentDescription2 where
  "clear_description =
     \<lparr>format = 37, samples = 1, loadOp = VK_ATTACHMENT_LOAD_OP_CLEAR,
      storeOp = VK_ATTACHMENT_STORE_OP_DONT_CARE,
      stencilLoadOp = VK_ATTACHMENT_LOAD_OP_DONT_CARE,
      stencilStoreOp = VK_ATTACHMENT_STORE_OP_DONT_CARE\<rparr>"

text \<open>
  Stand-ins, in the examples, for the two mappings of \<^verbatim>\<open>mvk_datatypes\<close> that the model takes
  as parameters.
\<close>

definition example_fromStoreOp :: "VkAttachmentStoreOp \<Rightarrow> bool \<Rightarrow> bool \<Rightarrow> MTLStoreAction" where
  "example_fromStoreOp op hasResolveAttachment canResolveFormat =
     (case op of
        VK_ATTACHMENT_STORE_OP_STORE \<Rightarrow>
          if hasResolveAttachment \<and> canResolveFormat
          then MTLStoreActionStoreAndMultisampleResolve else MTLStoreActionStore
      | VK_ATTACHMENT_STORE_OP_DONT_CARE \<Rightarrow>
          if hasResolveAttachment
          then (if canResolveFormat then MTLStoreActionMultisampleResolve else MTLStoreActionStore)
          else MTLStoreActionDontCare)"

definition example_fromLoadOp :: "VkAttachmentLoadOp \<Rightarrow> MTLLoadAction" where
  "example_fromLoadOp op =
     (case op of
        VK_ATTACHMENT_LOAD_OP_LOAD \<Rightarrow> MTLLoadActionLoad
      | VK_ATTACHMENT_LOAD_OP_CLEAR \<Rightarrow> MTLLoadActionClear
      | VK_ATTACHMENT_LOAD_OP_DONT_CARE \<Rightarrow> MTLLoadActionDontCare)"

text \<open>Two subpasses without multiview, both rendering to attachment 0.\<close>

definition two_pass :: MVKRenderPass where
  "two_pass = \<lparr>subpasses = [color_subpass 0 0 [0], color_subpass 1 0 [0]], attachments = []\<rparr>"

text \<open>Two multiview subpasses rendering to attachment 0: view 0, then views 0 and 1.\<close>

definition two_pass_multiview :: MVKRenderPass where
  "two_pass_multiview =
     \<lparr>subpasses = [color_subpass 0 1 [0], color_subpass 1 3 [0]], attachments = []\<rparr>"

text \<open>
  The attachment, declared with load-op Clear, that is constructed next in a render pass.
  Every example render pass has a subpass, so that the constructor returns
  (\<open>example_attachment_constructed\<close>); where it does not, the value is the attachment as
  declared.
\<close>

definition example_attachment :: "MVKRenderPass \<Rightarrow> MVKRenderPassAttachment" where
  "example_attachment rp =
     (case new_MVKRenderPassAttachment example_pixel_formats 1073741823 rp clear_description of
        Inr (att, err) \<Rightarrow> att
      | Inl f \<Rightarrow>
          \<lparr>info = clear_description, attachmentIndex = of_nat (length (attachments rp)),
           firstUseSubpassIdx = 0, lastUseSubpassIdx = 0,
           firstUseViewMasks = [], lastUseViewMasks = []\<rparr>)"

text \<open>
  Three multiview subpasses; the first (view 0) and the third (views 0 and 1) render to
  attachment 0, the second to attachment 1.
\<close>

definition three_pass_multiview :: MVKRenderPass where
  "three_pass_multiview =
     \<lparr>subpasses = [color_subpass 0 1 [0], color_subpass 1 2 [1], color_subpass 2 3 [0]],
      attachments = []\<rparr>"

text \<open>
  Three multiview subpasses, each with view 0 only; the first renders to attachment 1, the
  second and the third to attachment 0.
\<close>

definition late_use_multiview :: MVKRenderPass where
  "late_use_multiview =
     \<lparr>subpasses = [color_subpass 0 1 [1], color_subpass 1 1 [0], color_subpass 2 1 [0]],
      attachments = []\<rparr>"

section \<open>One clump\<close>

lemma disjointD: "(a::u32) AND b = 0 \<Longrightarrow> \<not> (bit a n \<and> bit b n)"
proof
  assume z: "a AND b = 0" and c: "bit a n \<and> bit b n"
  from c have "bit (a AND b) n" by (simp only: bit_and_iff)
  with z show False by simp
qed

lemma unat_of_nat_small: "n \<le> 32 \<Longrightarrow> unat (of_nat n :: u32) = n"
  by (rule of_nat_inverse [OF refl]) simp

lemma bit_single: "bit (push_bit n (1::u32)) i \<longleftrightarrow> i = n \<and> n < 32"
  by (auto simp: bit_exp_iff possible_bit_word)

lemma bit_single_exp: "bit ((2::u32) ^ n) i \<longleftrightarrow> i = n \<and> n < 32"
  by (auto simp: bit_exp_iff possible_bit_word)

lemma while_partition:
  "getNextViewMaskGroup_while oob vm e gm = (vm', e', gm') \<Longrightarrow> gm AND vm = 0
   \<Longrightarrow> gm' OR vm' = gm OR vm \<and> gm' AND vm' = 0"
proof (induction oob vm e gm arbitrary: vm' e' gm' rule: getNextViewMaskGroup_while.induct)
  case (1 oob vm e gm)
  let ?s = "shl1 oob e"
  show ?case
  proof (cases "vm AND ?s \<noteq> 0")
    case True
    have step: "getNextViewMaskGroup_while oob (vm AND NOT ?s) (e + 1) (gm OR (vm AND ?s))
                = (vm', e', gm')"
      using "1.prems"(1) True by (subst (asm) getNextViewMaskGroup_while.simps) simp
    have d: "\<not> (bit gm n \<and> bit vm n)" for n using "1.prems"(2) by (rule disjointD)
    have disj: "(gm OR (vm AND ?s)) AND (vm AND NOT ?s) = 0"
      by (rule bit_eqI) (use d in \<open>auto simp: bit_and_iff bit_or_iff bit_not_iff\<close>)
    have "gm' OR vm' = (gm OR (vm AND ?s)) OR (vm AND NOT ?s) \<and> gm' AND vm' = 0"
      using "1.IH" [OF True step disj] .
    moreover have "(gm OR (vm AND ?s)) OR (vm AND NOT ?s) = gm OR vm"
      by (rule bit_eqI) (auto simp: bit_and_iff bit_or_iff bit_not_iff)
    ultimately show ?thesis by simp
  next
    case False
    then have "(vm', e', gm') = (vm, e, gm)"
      using "1.prems"(1) by (subst (asm) getNextViewMaskGroup_while.simps) simp
    then show ?thesis using "1.prems"(2) by simp
  qed
qed

lemma getNextViewMaskGroup_cases:
  assumes "getNextViewMaskGroup oob vmask = (r, sv, vc, g)"
  obtains e where "getNextViewMaskGroup_while oob vmask (ffs vmask - 1) 0 = (r, e, g)"
    and "sv = word_of_int (ffs vmask - 1)" and "vc = word_of_int (e - (ffs vmask - 1))"
proof -
  obtain r' e g' where t: "getNextViewMaskGroup_while oob vmask (ffs vmask - 1) 0 = (r', e, g')"
    by (cases "getNextViewMaskGroup_while oob vmask (ffs vmask - 1) 0")
  then have "getNextViewMaskGroup oob vmask
      = (r', word_of_int (ffs vmask - 1), word_of_int (e - (ffs vmask - 1)), g')"
    by (simp add: getNextViewMaskGroup_def)
  with assms have "(r, sv, vc, g)
      = (r', word_of_int (ffs vmask - 1), word_of_int (e - (ffs vmask - 1)), g')"
    by (simp only:)
  then have "r = r'" "sv = word_of_int (ffs vmask - 1)"
    "vc = word_of_int (e - (ffs vmask - 1))" "g = g'" by blast+
  with t that show ?thesis by blast
qed

lemma getNextViewMaskGroup_partition:
  assumes "getNextViewMaskGroup oob vmask = (r, sv, vc, g)"
  shows "g OR r = vmask" and "g AND r = 0"
proof -
  obtain e where w: "getNextViewMaskGroup_while oob vmask (ffs vmask - 1) 0 = (r, e, g)"
    using assms by (rule getNextViewMaskGroup_cases)
  have "g OR r = 0 OR vmask \<and> g AND r = 0" by (rule while_partition [OF w]) simp
  then show "g OR r = vmask" and "g AND r = 0" by simp_all
qed

lemma popcount_card: "builtin_popcount x = card {i. bit x i}"
proof -
  have "builtin_popcount x = card {i. i < length [0..<32] \<and> bit x ([0..<32] ! i)}"
    unfolding builtin_popcount_def by (rule length_filter_conv_card)
  also have "{i. i < length [0..<32] \<and> bit x ([0..<32] ! i)} = {i. bit x i}"
    using bit_imp_le_length [of x] by auto
  finally show ?thesis .
qed

lemma finite_bits: "finite {i. bit (x::u32) i}"
proof (rule finite_subset)
  show "{i. bit x i} \<subseteq> {..<32}" using bit_imp_le_length [of x] by auto
qed simp

lemma popcount_le_32: "builtin_popcount x \<le> 32"
proof -
  have "card {i. bit x i} \<le> card {..<32::nat}"
    by (rule card_mono) (use bit_imp_le_length [of x] in auto)
  then show ?thesis by (simp add: popcount_card)
qed

lemma popcount_clear_bit:
  assumes "bit vm n"
  shows "builtin_popcount (vm AND NOT (push_bit n 1)) + 1 = builtin_popcount vm"
proof -
  have "{i. bit (vm AND NOT (push_bit n 1)) i} = {i. bit vm i} - {n}"
    using bit_imp_le_length [of vm]
    by (auto simp: bit_and_iff bit_not_iff bit_single_exp)
  then have "builtin_popcount (vm AND NOT (push_bit n 1)) = card ({i. bit vm i} - {n})"
    by (simp add: popcount_card)
  also have "\<dots> = card {i. bit vm i} - 1" using assms by simp
  finally have "builtin_popcount (vm AND NOT (push_bit n 1)) = builtin_popcount vm - 1"
    by (simp add: popcount_card)
  moreover have "0 < builtin_popcount vm"
    unfolding popcount_card using assms finite_bits [of vm] by (auto simp: card_gt_0_iff)
  ultimately show ?thesis by simp
qed

lemma while_count:
  "getNextViewMaskGroup_while oob vm e gm = (vm', e', gm') \<Longrightarrow> 0 \<le> e \<Longrightarrow> e \<le> 32
   \<Longrightarrow> (\<forall>j. int j < e \<longrightarrow> \<not> bit vm j)
   \<Longrightarrow> e \<le> e' \<and> e' \<le> 32 \<and> (vm AND shl1 oob e \<noteq> 0 \<longrightarrow> e < e')
       \<and> builtin_popcount vm' + nat (e' - e) = builtin_popcount vm"
proof (induction oob vm e gm arbitrary: vm' e' gm' rule: getNextViewMaskGroup_while.induct)
  case (1 oob vm e gm)
  let ?s = "shl1 oob e"
  show ?case
  proof (cases "vm AND ?s \<noteq> 0")
    case True
    have step: "getNextViewMaskGroup_while oob (vm AND NOT ?s) (e + 1) (gm OR (vm AND ?s))
                = (vm', e', gm')"
      using "1.prems"(1) True by (subst (asm) getNextViewMaskGroup_while.simps) simp
    from True have "vm \<noteq> 0" by auto
    then obtain i where i: "i < 32" "bit vm i" using nonzero_has_bit by blast
    with "1.prems"(4) have "e \<le> int i" by force
    with i(1) have e32: "e < 32" by simp
    then have s: "?s = push_bit (nat e) 1" using "1.prems"(2) by (simp add: shl1_def)
    have be: "bit vm (nat e)"
    proof (rule ccontr)
      assume "\<not> bit vm (nat e)"
      then have "vm AND push_bit (nat e) 1 = 0"
        by (intro bit_eqI) (auto simp: bit_and_iff bit_single_exp)
      with True s show False by simp
    qed
    have inv: "\<forall>j. int j < e + 1 \<longrightarrow> \<not> bit (vm AND NOT ?s) j"
    proof (intro allI impI)
      fix j assume "int j < e + 1"
      then consider "int j < e" | "j = nat e" using "1.prems"(2) by linarith
      then show "\<not> bit (vm AND NOT ?s) j"
      proof cases
        case 1 then show ?thesis using "1.prems"(4) by (simp add: bit_and_iff)
      next
        case 2 then show ?thesis using e32
          by (simp add: s bit_and_iff bit_not_iff bit_single_exp)
      qed
    qed
    have ih: "e + 1 \<le> e' \<and> e' \<le> 32
              \<and> builtin_popcount vm' + nat (e' - (e + 1)) = builtin_popcount (vm AND NOT ?s)"
      using "1.IH" [OF True step _ _ inv] "1.prems"(2) e32 by simp
    have "builtin_popcount (vm AND NOT ?s) + 1 = builtin_popcount vm"
      unfolding s using be by (rule popcount_clear_bit)
    moreover have "nat (e' - e) = nat (e' - (e + 1)) + 1" using ih by linarith
    ultimately show ?thesis using ih True by simp
  next
    case False
    then have "(vm', e', gm') = (vm, e, gm)"
      using "1.prems"(1) by (subst (asm) getNextViewMaskGroup_while.simps) simp
    then show ?thesis using "1.prems" False by simp
  qed
qed

lemma getNextViewMaskGroup_count:
  assumes "vmask \<noteq> 0" and "getNextViewMaskGroup oob vmask = (r, sv, vc, g)"
  shows "unat vc + builtin_popcount r = builtin_popcount vmask" and "0 < unat vc"
    and "bit vmask (unat sv)" and "\<forall>j<unat sv. \<not> bit vmask j"
proof -
  from assms(1) obtain p where p: "p < 32" "ffs vmask = int p + 1" "bit vmask p"
    "\<forall>j<p. \<not> bit vmask j"
    by (rule ffs_nonzero)
  have fp: "ffs vmask - 1 = int p" using p(2) by simp
  obtain e where w: "getNextViewMaskGroup_while oob vmask (int p) 0 = (r, e, g)"
    and sv: "sv = word_of_int (int p)" and vc: "vc = word_of_int (e - int p)"
    using getNextViewMaskGroup_cases [OF assms(2)] unfolding fp by blast
  have nz: "vmask AND shl1 oob (int p) \<noteq> 0"
  proof
    assume "vmask AND shl1 oob (int p) = 0"
    then have "\<not> bit (vmask AND push_bit p 1) p" using p(1) by (simp add: shl1_def)
    then show False using p(1,3) by (simp add: bit_and_iff bit_single_exp)
  qed
  have c: "int p \<le> e \<and> e \<le> 32 \<and> (vmask AND shl1 oob (int p) \<noteq> 0 \<longrightarrow> int p < e)
       \<and> builtin_popcount r + nat (e - int p) = builtin_popcount vmask"
    by (rule while_count [OF w]) (use p in auto)
  have "vc = of_nat (nat (e - int p))" using c by (simp add: vc)
  moreover have "nat (e - int p) \<le> 32" using c by linarith
  ultimately have "unat vc = nat (e - int p)" by (simp add: unat_of_nat_small)
  with c nz show "unat vc + builtin_popcount r = builtin_popcount vmask" and "0 < unat vc"
    by simp_all
  have "unat sv = p" using p(1) by (simp add: sv unat_of_nat_small)
  with p show "bit vmask (unat sv)" and "\<forall>j<unat sv. \<not> bit vmask j" by simp_all
qed

section \<open>The list of clumps and the loops over it\<close>

lemma clumps_zero: "clumps oob 0 = []"
  by (simp add: clumps.simps)

lemma clumps_nonzero:
  "vmask \<noteq> 0 \<Longrightarrow> getNextViewMaskGroup oob vmask = (r, sv, vc, g)
   \<Longrightarrow> clumps oob vmask = (r, sv, vc, g) # clumps oob r"
  by (subst clumps.simps) simp

lemma popcount_zero: "builtin_popcount 0 = 0"
  by (simp add: popcount_card)

lemma clumps_induct [case_names zero step]:
  assumes "\<And>oob. P oob 0"
    and "\<And>oob vmask r sv vc g. vmask \<noteq> 0 \<Longrightarrow> getNextViewMaskGroup oob vmask = (r, sv, vc, g)
          \<Longrightarrow> P oob r \<Longrightarrow> P oob vmask"
  shows "P oob vmask"
proof (induction oob vmask rule: clumps.induct)
  case (1 oob vmask)
  show ?case
  proof (cases "vmask = 0")
    case True
    then show ?thesis using assms(1) by simp
  next
    case False
    obtain r sv vc g where g: "getNextViewMaskGroup oob vmask = (r, sv, vc, g)"
      by (cases "getNextViewMaskGroup oob vmask")
    have "P oob r" using 1 [OF False] g by simp
    with False g show ?thesis by (rule assms(2))
  qed
qed

lemma clumps_length_le: "length (clumps oob vmask) \<le> builtin_popcount vmask"
proof (induction oob vmask rule: clumps_induct)
  case (zero oob)
  show ?case by (simp add: clumps_zero)
next
  case (step oob vmask r sv vc g)
  have "unat vc + builtin_popcount r = builtin_popcount vmask" and "0 < unat vc"
    using getNextViewMaskGroup_count [OF step(1,2)] by simp_all
  with step show ?case by (simp add: clumps_nonzero)
qed

lemma clumps_length_le_32: "length (clumps oob vmask) \<le> 32"
  using clumps_length_le [of oob vmask] popcount_le_32 [of vmask] by simp

lemma clumps_nonempty: "vmask \<noteq> 0 \<Longrightarrow> 0 < length (clumps oob vmask)"
  by (cases "getNextViewMaskGroup oob vmask") (simp add: clumps_nonzero)

lemma count_for_clumps:
  "getMultiviewMetalPassCount_for oob vmask c = c + of_nat (length (clumps oob vmask))"
proof (induction oob vmask arbitrary: c rule: clumps_induct)
  case (zero oob)
  show ?case by (simp add: clumps_zero getMultiviewMetalPassCount_for.simps)
next
  case (step oob vmask r sv vc g)
  have "getMultiviewMetalPassCount_for oob vmask c
        = getMultiviewMetalPassCount_for oob r (c + 1)"
    using step(1,2) by (subst getMultiviewMetalPassCount_for.simps) simp
  also have "\<dots> = c + 1 + of_nat (length (clumps oob r))" by (rule step.IH)
  finally show ?case using step(1,2) by (simp add: clumps_nonzero)
qed

lemma clumps_fold_count:
  "fold (\<lambda>c t. t + clump_count c) (clumps oob vmask) t = t + of_nat (builtin_popcount vmask)"
proof (induction oob vmask arbitrary: t rule: clumps_induct)
  case (zero oob)
  show ?case by (simp add: clumps_zero popcount_zero)
next
  case (step oob vmask r sv vc g)
  have c: "unat vc + builtin_popcount r = builtin_popcount vmask"
    using getNextViewMaskGroup_count [OF step(1,2)] by simp
  have "fold (\<lambda>c t. t + clump_count c) (clumps oob vmask) t
        = fold (\<lambda>c t. t + clump_count c) (clumps oob r) (t + vc)"
    using step(1,2) by (simp add: clumps_nonzero clump_count_def)
  also have "\<dots> = t + vc + of_nat (builtin_popcount r)" by (rule step.IH)
  also have "\<dots> = t + of_nat (unat vc + builtin_popcount r)" by simp
  finally show ?case by (simp only: c)
qed

lemma clumps_fold_or:
  "fold (OR) (map clump_group (clumps oob vmask)) a = a OR vmask"
proof (induction oob vmask arbitrary: a rule: clumps_induct)
  case (zero oob)
  show ?case by (simp add: clumps_zero)
next
  case (step oob vmask r sv vc g)
  have p: "g OR r = vmask" using getNextViewMaskGroup_partition [OF step(2)] by simp
  have "fold (OR) (map clump_group (clumps oob vmask)) a
        = fold (OR) (map clump_group (clumps oob r)) (g OR a)"
    using step(1,2) by (simp add: clumps_nonzero clump_group_def)
  also have "\<dots> = (g OR a) OR r" by (rule step.IH)
  also have "\<dots> = a OR (g OR r)" by (simp add: ac_simps)
  finally show ?case by (simp only: p)
qed

lemma clumps_group_within:
  "c \<in> set (clumps oob vmask) \<Longrightarrow> clump_group c AND NOT vmask = 0"
proof (induction oob vmask rule: clumps_induct)
  case (zero oob)
  then show ?case by (simp add: clumps_zero)
next
  case (step oob vmask r sv vc g)
  have p: "g OR r = vmask" using getNextViewMaskGroup_partition [OF step(2)] by simp
  from step(4) have "c = (r, sv, vc, g) \<or> c \<in> set (clumps oob r)"
    using step(1,2) by (simp add: clumps_nonzero)
  then show ?case
  proof
    assume "c = (r, sv, vc, g)"
    then have "clump_group c = g" by (simp add: clump_group_def)
    then show ?thesis unfolding p [symmetric]
      by (intro bit_eqI) (auto simp: bit_and_iff bit_or_iff bit_not_iff)
  next
    assume "c \<in> set (clumps oob r)"
    then have "clump_group c AND NOT r = 0" by (rule step.IH)
    then have d: "\<not> (bit (clump_group c) n \<and> bit (NOT r) n)" for n by (rule disjointD)
    show ?thesis unfolding p [symmetric]
      by (intro bit_eqI) (use d in \<open>auto simp: bit_and_iff bit_or_iff bit_not_iff\<close>)
  qed
qed

lemma clumps_disjoint:
  "i < j \<Longrightarrow> j < length (clumps oob vmask)
   \<Longrightarrow> clump_group (clumps oob vmask ! i) AND clump_group (clumps oob vmask ! j) = 0"
proof (induction oob vmask arbitrary: i j rule: clumps_induct)
  case (zero oob)
  then show ?case by (simp add: clumps_zero)
next
  case (step oob vmask r sv vc g)
  have cl: "clumps oob vmask = (r, sv, vc, g) # clumps oob r"
    using step(1,2) by (rule clumps_nonzero)
  have q: "g AND r = 0" using getNextViewMaskGroup_partition [OF step(2)] by simp
  obtain j' where j': "j = Suc j'" using step.prems(1) by (cases j) auto
  have j'len: "j' < length (clumps oob r)" using step.prems(2) by (simp add: cl j')
  show ?case
  proof (cases i)
    case 0
    have "clumps oob r ! j' \<in> set (clumps oob r)" using j'len by simp
    then have "clump_group (clumps oob r ! j') AND NOT r = 0" by (rule clumps_group_within)
    then have d: "\<not> (bit (clump_group (clumps oob r ! j')) n \<and> bit (NOT r) n)" for n
      by (rule disjointD)
    have e: "\<not> (bit g n \<and> bit r n)" for n using q by (rule disjointD)
    have "g AND clump_group (clumps oob r ! j') = 0"
      by (intro bit_eqI) (use d e in \<open>auto simp: bit_and_iff bit_not_iff\<close>)
    then show ?thesis by (simp add: cl j' 0 clump_group_def)
  next
    case (Suc i')
    then have "i' < j'" using step.prems(1) j' by simp
    then have "clump_group (clumps oob r ! i') AND clump_group (clumps oob r ! j') = 0"
      using j'len by (rule step.IH)
    then show ?thesis by (simp add: cl j' Suc)
  qed
qed

lemma funpow_clumps:
  "k \<le> length (clumps oob vmask) \<Longrightarrow>
   snd (((\<lambda>(vm, a). case getNextViewMaskGroup oob vm of (vm', sv, vc, g) \<Rightarrow> (vm', upd a sv vc g)) ^^ k)
          (vmask, a))
   = fold (\<lambda>c a. case c of (r, sv, vc, g) \<Rightarrow> upd a sv vc g) (take k (clumps oob vmask)) a"
proof (induction k arbitrary: vmask a)
  case 0
  show ?case by simp
next
  case (Suc k)
  let ?body = "\<lambda>(vm, a). case getNextViewMaskGroup oob vm of
                 (vm', sv, vc, g) \<Rightarrow> (vm', upd a sv vc g)"
  from Suc.prems have nz: "vmask \<noteq> 0" by (auto simp: clumps_zero)
  obtain r sv vc g where g: "getNextViewMaskGroup oob vmask = (r, sv, vc, g)"
    by (cases "getNextViewMaskGroup oob vmask")
  have cl: "clumps oob vmask = (r, sv, vc, g) # clumps oob r"
    using nz g by (rule clumps_nonzero)
  have k: "k \<le> length (clumps oob r)" using Suc.prems by (simp add: cl)
  have "(?body ^^ Suc k) (vmask, a) = (?body ^^ k) (?body (vmask, a))"
    by (simp only: funpow_Suc_right o_apply)
  also have "?body (vmask, a) = (r, upd a sv vc g)" by (simp add: g)
  finally have "snd ((?body ^^ Suc k) (vmask, a)) = snd ((?body ^^ k) (r, upd a sv vc g))"
    by simp
  also have "\<dots> = fold (\<lambda>c a. case c of (r, sv, vc, g) \<Rightarrow> upd a sv vc g)
                     (take k (clumps oob r)) (upd a sv vc g)"
    using k by (rule Suc.IH)
  finally show ?case by (simp add: cl)
qed

lemma fold_select:
  "k < length xs \<Longrightarrow> fold (\<lambda>c a. f c) (take (Suc k) xs) a = f (xs ! k)"
  by (simp add: take_Suc_conv_app_nth)

lemma unat_plus_one: "(x::u32) \<noteq> - 1 \<Longrightarrow> unat (x + 1) = Suc (unat x)"
  using unatSuc [of x] by (simp add: add.commute eq_neg_iff_add_eq_0)

lemma for_le_funpow:
  "passIdx \<noteq> - 1 \<Longrightarrow> i \<le> passIdx
   \<Longrightarrow> for_le passIdx body i s = Some ((body ^^ Suc (unat passIdx - unat i)) s)"
proof (induction "unat passIdx - unat i" arbitrary: i s)
  case 0
  then have "unat i = unat passIdx" by (simp add: word_le_nat_alt)
  then have i: "i = passIdx" by (rule word_unat_eq_iff [THEN iffD2])
  have "unat (passIdx + 1) = Suc (unat passIdx)" using "0.prems"(1) by (rule unat_plus_one)
  then have n: "\<not> passIdx + 1 \<le> passIdx" by (simp add: word_le_nat_alt)
  have "for_le passIdx body i s = for_le passIdx body (passIdx + 1) (body s)"
    by (subst for_le.simps) (simp add: i)
  also have "\<dots> = Some (body s)" using n by (subst for_le.simps) simp
  finally show ?case by (simp add: i)
next
  case (Suc n)
  then have lt: "unat i < unat passIdx" by simp
  have "i \<noteq> - 1"
  proof
    assume "i = - 1"
    then have "passIdx \<le> i" by simp
    then show False using lt by (simp add: word_le_nat_alt)
  qed
  then have u: "unat (i + 1) = Suc (unat i)" by (rule unat_plus_one)
  have le: "i + 1 \<le> passIdx" using lt u by (simp add: word_le_nat_alt)
  have n: "n = unat passIdx - unat (i + 1)" using Suc(2) u by simp
  have "for_le passIdx body i s = for_le passIdx body (i + 1) (body s)"
    using Suc.prems(2) by (subst for_le.simps) simp
  also have "\<dots> = Some ((body ^^ Suc (unat passIdx - unat (i + 1))) (body s))"
    using n Suc.prems(1) le by (rule Suc(1))
  also have "(body ^^ Suc (unat passIdx - unat (i + 1))) (body s)
             = (body ^^ Suc (unat passIdx - unat i)) s"
  proof -
    have "Suc (unat passIdx - unat i) = Suc (Suc (unat passIdx - unat (i + 1)))"
      using lt u by simp
    then show ?thesis by (simp only: funpow_Suc_right o_apply)
  qed
  finally show ?case .
qed

lemma for_le_from_zero:
  "passIdx \<noteq> - 1 \<Longrightarrow> for_le passIdx body 0 s = Some ((body ^^ Suc (unat passIdx)) s)"
  using for_le_funpow [of passIdx 0 body s] by simp

text \<open>
  With \<^verbatim>\<open>passIdx == UINT32_MAX\<close> the loop does not return; \<^verbatim>\<open>getViewCountUpToMetalPass\<close>,
  which has no assertion, can be called so.
\<close>

lemma for_le_no_return_at_max: "for_le (- 1) body i s = None"
proof (cases "for_le (- 1) body i s")
  case None
  then show ?thesis .
next
  case (Some r)
  have "passIdx \<noteq> - 1" if "for_le passIdx body i s = Some r" for passIdx
    by (rule for_le.raw_induct [where P = "\<lambda>passIdx body i s y. passIdx \<noteq> - 1", OF _ that])
       (auto split: if_splits)
  with Some show ?thesis by blast
qed

lemma view_count_up_to_no_return:
  assumes "canUseInstancingForMultiview dev" and "viewMask sp \<noteq> 0"
  shows "getViewCountUpToMetalPass oob dev sp (- 1) = Inl NoReturn"
  using assms by (simp add: getViewCountUpToMetalPass_def for_le_no_return_at_max)

section \<open>The partition with instancing\<close>

text \<open>
  On a device that can use instancing for multiview, the passes are the clumps of the view
  mask: their group masks are pairwise disjoint and their union is the view mask
  (\<open>instanced_groups_partition\<close>).
\<close>

lemma passCount_instancing:
  assumes "canUseInstancingForMultiview dev"
  shows "getMultiviewMetalPassCount oob dev sp = of_nat (length (clumps oob (viewMask sp)))"
  using assms by (simp add: getMultiviewMetalPassCount_def count_for_clumps clumps_zero)

lemma passCount_instancing_unat:
  assumes "canUseInstancingForMultiview dev"
  shows "unat (getMultiviewMetalPassCount oob dev sp) = length (clumps oob (viewMask sp))"
  using assms clumps_length_le_32 [of oob "viewMask sp"]
  by (simp add: passCount_instancing unat_of_nat_small)

lemma valid_pass_instancing:
  assumes "canUseInstancingForMultiview dev"
    and "passIdx < getMultiviewMetalPassCount oob dev sp"
  shows "unat passIdx < length (clumps oob (viewMask sp))" and "passIdx \<noteq> - 1"
proof -
  show "unat passIdx < length (clumps oob (viewMask sp))"
    using assms(2) passCount_instancing_unat [OF assms(1), of oob sp]
    by (simp add: word_less_nat_alt)
  show "passIdx \<noteq> - 1"
  proof
    assume "passIdx = - 1"
    then have "getMultiviewMetalPassCount oob dev sp \<le> passIdx" by simp
    with assms(2) show False by simp
  qed
qed

lemma instanced_group:
  assumes "canUseInstancingForMultiview dev"
    and "passIdx < getMultiviewMetalPassCount oob dev sp"
  shows "getViewMaskGroupForMetalPass oob dev sp passIdx
         = Inr (clump_group (clumps oob (viewMask sp) ! unat passIdx))"
proof -
  let ?body = "\<lambda>(vmask, groupMask::u32). case getNextViewMaskGroup oob vmask of
                 (vmask', sv, vc, gm) \<Rightarrow> (vmask', gm)"
  note v = valid_pass_instancing [OF assms]
  have nz: "viewMask sp \<noteq> 0" using v(1) by (auto simp: clumps_zero)
  have "snd ((?body ^^ Suc (unat passIdx)) (viewMask sp, 0))
        = fold (\<lambda>c a. case c of (r, sv, vc, g) \<Rightarrow> g)
            (take (Suc (unat passIdx)) (clumps oob (viewMask sp))) 0"
    using v(1) funpow_clumps [where upd = "\<lambda>(a::u32) sv vc g. g" and k = "Suc (unat passIdx)" and oob = oob
        and vmask = "viewMask sp" and a = "0::u32"] by simp
  also have "\<dots> = clump_group (clumps oob (viewMask sp) ! unat passIdx)"
    using fold_select [OF v(1), of "\<lambda>c. case c of (r, sv, vc, g) \<Rightarrow> g" 0]
    by (simp add: clump_group_def)
  finally have s: "snd ((?body ^^ Suc (unat passIdx)) (viewMask sp, 0))
                   = clump_group (clumps oob (viewMask sp) ! unat passIdx)" .
  have "getViewMaskGroupForMetalPass oob dev sp passIdx
        = Inr (snd ((?body ^^ Suc (unat passIdx)) (viewMask sp, 0)))"
    using assms nz
    by (simp add: getViewMaskGroupForMetalPass_def for_le_from_zero [OF v(2)] case_prod_beta)
  then show ?thesis by (simp only: s)
qed

lemma instanced_view_count:
  assumes "canUseInstancingForMultiview dev"
    and "passIdx < getMultiviewMetalPassCount oob dev sp"
  shows "getViewCountInMetalPass oob dev sp passIdx
         = Inr (clump_count (clumps oob (viewMask sp) ! unat passIdx))"
proof -
  let ?body = "\<lambda>(vmask, viewCount::u32). case getNextViewMaskGroup oob vmask of
                 (vmask', sv, vc, gm) \<Rightarrow> (vmask', vc)"
  note v = valid_pass_instancing [OF assms]
  have nz: "viewMask sp \<noteq> 0" using v(1) by (auto simp: clumps_zero)
  have "snd ((?body ^^ Suc (unat passIdx)) (viewMask sp, 0))
        = fold (\<lambda>c a. case c of (r, sv, vc, g) \<Rightarrow> vc)
            (take (Suc (unat passIdx)) (clumps oob (viewMask sp))) 0"
    using v(1) funpow_clumps [where upd = "\<lambda>(a::u32) sv vc g. vc" and k = "Suc (unat passIdx)" and oob = oob
        and vmask = "viewMask sp" and a = "0::u32"] by simp
  also have "\<dots> = clump_count (clumps oob (viewMask sp) ! unat passIdx)"
    using fold_select [OF v(1), of "\<lambda>c. case c of (r, sv, vc, g) \<Rightarrow> vc" 0]
    by (simp add: clump_count_def)
  finally have s: "snd ((?body ^^ Suc (unat passIdx)) (viewMask sp, 0))
                   = clump_count (clumps oob (viewMask sp) ! unat passIdx)" .
  have "getViewCountInMetalPass oob dev sp passIdx
        = Inr (snd ((?body ^^ Suc (unat passIdx)) (viewMask sp, 0)))"
    using assms nz
    by (simp add: getViewCountInMetalPass_def for_le_from_zero [OF v(2)] case_prod_beta)
  then show ?thesis by (simp only: s)
qed

lemma instanced_first_view:
  assumes "canUseInstancingForMultiview dev"
    and "passIdx < getMultiviewMetalPassCount oob dev sp"
  shows "getFirstViewIndexInMetalPass oob dev sp passIdx
         = Inr (clump_start (clumps oob (viewMask sp) ! unat passIdx))"
proof -
  let ?body = "\<lambda>(vmask, startView::u32). case getNextViewMaskGroup oob vmask of
                 (vmask', sv, vc, gm) \<Rightarrow> (vmask', sv)"
  note v = valid_pass_instancing [OF assms]
  have nz: "viewMask sp \<noteq> 0" using v(1) by (auto simp: clumps_zero)
  have "snd ((?body ^^ Suc (unat passIdx)) (viewMask sp, 0))
        = fold (\<lambda>c a. case c of (r, sv, vc, g) \<Rightarrow> sv)
            (take (Suc (unat passIdx)) (clumps oob (viewMask sp))) 0"
    using v(1) funpow_clumps [where upd = "\<lambda>(a::u32) sv vc g. sv" and k = "Suc (unat passIdx)" and oob = oob
        and vmask = "viewMask sp" and a = "0::u32"] by simp
  also have "\<dots> = clump_start (clumps oob (viewMask sp) ! unat passIdx)"
    using fold_select [OF v(1), of "\<lambda>c. case c of (r, sv, vc, g) \<Rightarrow> sv" 0]
    by (simp add: clump_start_def)
  finally have s: "snd ((?body ^^ Suc (unat passIdx)) (viewMask sp, 0))
                   = clump_start (clumps oob (viewMask sp) ! unat passIdx)" .
  have "getFirstViewIndexInMetalPass oob dev sp passIdx
        = Inr (snd ((?body ^^ Suc (unat passIdx)) (viewMask sp, 0)))"
    using assms nz
    by (simp add: getFirstViewIndexInMetalPass_def for_le_from_zero [OF v(2)] case_prod_beta)
  then show ?thesis by (simp only: s)
qed

lemma instanced_groups_partition:
  assumes "canUseInstancingForMultiview dev"
  shows "\<exists>gs. length gs = unat (getMultiviewMetalPassCount oob dev sp)
          \<and> (\<forall>p. p < getMultiviewMetalPassCount oob dev sp
                \<longrightarrow> getViewMaskGroupForMetalPass oob dev sp p = Inr (gs ! unat p))
          \<and> (\<forall>i j. i < j \<and> j < length gs \<longrightarrow> gs ! i AND gs ! j = 0)
          \<and> fold (OR) gs 0 = viewMask sp"
proof (intro exI conjI allI impI)
  let ?gs = "map clump_group (clumps oob (viewMask sp))"
  show "length ?gs = unat (getMultiviewMetalPassCount oob dev sp)"
    by (simp add: passCount_instancing_unat [OF assms])
  show "fold (OR) ?gs 0 = viewMask sp" by (simp add: clumps_fold_or)
  show "getViewMaskGroupForMetalPass oob dev sp p = Inr (?gs ! unat p)"
    if "p < getMultiviewMetalPassCount oob dev sp" for p
    using instanced_group [OF assms that] valid_pass_instancing(1) [OF assms that] by simp
  show "?gs ! i AND ?gs ! j = 0" if "i < j \<and> j < length ?gs" for i j
    using that clumps_disjoint [of i j oob "viewMask sp"] by simp
qed

lemma instanced_view_count_up_to:
  assumes "canUseInstancingForMultiview dev" and "viewMask sp \<noteq> 0"
  shows "getViewCountUpToMetalPass oob dev sp (getMultiviewMetalPassCount oob dev sp - 1)
         = Inr (of_nat (builtin_popcount (viewMask sp)))"
proof -
  let ?body = "\<lambda>(vmask, totalViewCount::u32). case getNextViewMaskGroup oob vmask of
                 (vmask', sv, vc, gm) \<Rightarrow> (vmask', totalViewCount + vc)"
  let ?n = "length (clumps oob (viewMask sp))"
  let ?p = "getMultiviewMetalPassCount oob dev sp - 1"
  have n: "0 < ?n" "?n \<le> 32"
    using clumps_nonempty [OF assms(2)] clumps_length_le_32 by simp_all
  have "?p = of_nat (?n - 1)"
    using n(1) by (simp add: passCount_instancing [OF assms(1)] of_nat_diff Suc_le_eq)
  then have up: "unat ?p = ?n - 1" using n(2) by (simp add: unat_of_nat_small)
  have p: "?p \<noteq> - 1"
  proof
    assume "?p = - 1"
    then have "unat ?p = unat (- 1 :: u32)" by simp
    then show False using up n(2) by (simp add: unsigned_minus_1_eq_mask mask_eq_exp_minus_1)
  qed
  have sn: "Suc (unat ?p) = ?n" using up n(1) by simp
  have "snd ((?body ^^ ?n) (viewMask sp, 0))
        = fold (\<lambda>c a. case c of (r, sv, vc, g) \<Rightarrow> a + vc) (take ?n (clumps oob (viewMask sp))) 0"
    by (rule funpow_clumps [where upd = "\<lambda>(a::u32) sv vc g. a + vc"]) simp
  also have "\<dots> = fold (\<lambda>c t. t + clump_count c) (clumps oob (viewMask sp)) 0"
    by (simp add: clump_count_def [abs_def] case_prod_beta)
  also have "\<dots> = of_nat (builtin_popcount (viewMask sp))" by (simp add: clumps_fold_count)
  finally have s: "snd ((?body ^^ ?n) (viewMask sp, 0)) = of_nat (builtin_popcount (viewMask sp))" .
  have "getViewCountUpToMetalPass oob dev sp ?p = Inr (snd ((?body ^^ Suc (unat ?p)) (viewMask sp, 0)))"
    using assms
    by (simp add: getViewCountUpToMetalPass_def for_le_from_zero [OF p] case_prod_beta)
  then show ?thesis by (simp only: s sn)
qed

section \<open>The group masks of the unrolled partition\<close>

text \<open>
  C1. The claim is that in both partition modes the group masks of the passes are pairwise
  disjoint and that their union is the view mask. With instancing this is
  \<open>instanced_groups_partition\<close>. Without it, for the view mask \<open>0b1011\<close>,
  \<^verbatim>\<open>getViewMaskGroupForMetalPass\<close> returns \<open>0b10000\<close> for each of the three passes: the
  groups are not disjoint and their union is not the view mask. The value is
  \<^verbatim>\<open>1 << getFirstViewIndexInMetalPass(passIdx)\<close>, and the first view index is 4 for each
  pass (see C2).
\<close>

theorem unrolled_1011_group_masks:
  "getMultiviewMetalPassCount oob unrolling_device (bare_subpass 0 11) = 3
   \<and> getViewMaskGroupForMetalPass oob unrolling_device (bare_subpass 0 11) 0 = Inr 16
   \<and> getViewMaskGroupForMetalPass oob unrolling_device (bare_subpass 0 11) 1 = Inr 16
   \<and> getViewMaskGroupForMetalPass oob unrolling_device (bare_subpass 0 11) 2 = Inr 16
   \<and> (16::u32) AND 16 \<noteq> 0
   \<and> (16::u32) OR 16 OR 16 \<noteq> viewMask (bare_subpass 0 11)"
  by code_simp

section \<open>The unrolled partition of the mask \<open>0b1011\<close>\<close>

text \<open>
  C2. On a device that cannot use instancing for multiview, for the view mask \<open>0b1011\<close>:
  \<^verbatim>\<open>getMultiviewMetalPassCount\<close> is 3 and \<^verbatim>\<open>getViewCountInMetalPass\<close> is 1 in each of the
  passes 0, 1 and 2, as claimed; but \<^verbatim>\<open>getFirstViewIndexInMetalPass\<close> is 4 in each of the
  three passes, where the claim has the views 0, 1 and 3. The loop over the clumps goes on
  after the clump of the pass has been found, with \<^verbatim>\<open>passIdx\<close> wrapped to
  \<^verbatim>\<open>UINT32_MAX\<close>, and steps over every later clump.
\<close>

theorem unrolled_1011_first_view_index:
  "getMultiviewMetalPassCount oob unrolling_device (bare_subpass 0 11) = 3
   \<and> getViewCountInMetalPass oob unrolling_device (bare_subpass 0 11) 0 = Inr 1
   \<and> getViewCountInMetalPass oob unrolling_device (bare_subpass 0 11) 1 = Inr 1
   \<and> getViewCountInMetalPass oob unrolling_device (bare_subpass 0 11) 2 = Inr 1
   \<and> getFirstViewIndexInMetalPass oob unrolling_device (bare_subpass 0 11) 0 = Inr 4
   \<and> getFirstViewIndexInMetalPass oob unrolling_device (bare_subpass 0 11) 1 = Inr 4
   \<and> getFirstViewIndexInMetalPass oob unrolling_device (bare_subpass 0 11) 2 = Inr 4"
  by code_simp

section \<open>The view count up to the last pass\<close>

text \<open>
  C8. For every non-zero view mask, on a device with or without instancing for multiview,
  \<^verbatim>\<open>getViewCountUpToMetalPass(passCount - 1)\<close>, where \<open>passCount\<close> is
  \<^verbatim>\<open>getMultiviewMetalPassCount()\<close>, returns the population count of the view mask.
\<close>

theorem view_count_up_to_last_pass_is_popcount:
  assumes "viewMask sp \<noteq> 0"
  shows "getViewCountUpToMetalPass oob dev sp (getMultiviewMetalPassCount oob dev sp - 1)
         = Inr (of_nat (builtin_popcount (viewMask sp)))"
proof (cases "canUseInstancingForMultiview dev")
  case True
  then show ?thesis using assms by (rule instanced_view_count_up_to)
next
  case False
  then show ?thesis using assms
    by (simp add: getViewCountUpToMetalPass_def getMultiviewMetalPassCount_def)
qed

text \<open>C8 at the view mask \<open>0b1011\<close>, whose population count is 3, on both devices.\<close>

theorem view_count_up_to_last_pass_is_popcount_witness:
  "viewMask (bare_subpass 0 11) \<noteq> 0
   \<and> getViewCountUpToMetalPass (\<lambda>e. 1) instancing_device (bare_subpass 0 11)
       (getMultiviewMetalPassCount (\<lambda>e. 1) instancing_device (bare_subpass 0 11) - 1) = Inr 3
   \<and> getViewCountUpToMetalPass (\<lambda>e. 1) unrolling_device (bare_subpass 0 11)
       (getMultiviewMetalPassCount (\<lambda>e. 1) unrolling_device (bare_subpass 0 11) - 1) = Inr 3"
proof -
  have h: "viewMask (bare_subpass 0 11) \<noteq> 0" by (simp add: bare_subpass_def)
  have p: "of_nat (builtin_popcount (viewMask (bare_subpass 0 11))) = (3::u32)" by code_simp
  show ?thesis
    using h p view_count_up_to_last_pass_is_popcount [OF h, of "\<lambda>e. 1" instancing_device]
      view_count_up_to_last_pass_is_popcount [OF h, of "\<lambda>e. 1" unrolling_device]
    by simp
qed

section \<open>A subpass without views\<close>

text \<open>
  C10. When the view mask of the subpass is zero, \<^verbatim>\<open>getViewMaskGroupForMetalPass\<close>,
  \<^verbatim>\<open>getFirstViewIndexInMetalPass\<close>, \<^verbatim>\<open>getViewCountInMetalPass\<close> and
  \<^verbatim>\<open>getViewCountUpToMetalPass\<close> return 0 for every pass index, on every device: the test of
  the mask comes first, so neither the assertion on the pass index nor a loop is reached.
\<close>

theorem zero_view_mask_accessors_return_zero:
  assumes "viewMask sp = 0"
  shows "getViewMaskGroupForMetalPass oob dev sp passIdx = Inr 0
       \<and> getFirstViewIndexInMetalPass oob dev sp passIdx = Inr 0
       \<and> getViewCountInMetalPass oob dev sp passIdx = Inr 0
       \<and> getViewCountUpToMetalPass oob dev sp passIdx = Inr 0"
  using assms
  by (simp add: getViewMaskGroupForMetalPass_def getFirstViewIndexInMetalPass_def
      getViewCountInMetalPass_def getViewCountUpToMetalPass_def)

theorem zero_view_mask_accessors_return_zero_witness:
  "viewMask (bare_subpass 2 0) = 0
   \<and> getViewMaskGroupForMetalPass (\<lambda>e. 1) instancing_device (bare_subpass 2 0) 7 = Inr 0
   \<and> getFirstViewIndexInMetalPass (\<lambda>e. 1) instancing_device (bare_subpass 2 0) 7 = Inr 0
   \<and> getViewCountInMetalPass (\<lambda>e. 1) instancing_device (bare_subpass 2 0) 7 = Inr 0
   \<and> getViewCountUpToMetalPass (\<lambda>e. 1) instancing_device (bare_subpass 2 0) 7 = Inr 0"
proof -
  have h: "viewMask (bare_subpass 2 0) = 0" by (simp add: bare_subpass_def)
  show ?thesis
    using h zero_view_mask_accessors_return_zero [OF h, of "\<lambda>e. 1" instancing_device 7]
    by simp
qed

section \<open>Color attachment accessors\<close>

text \<open>
  C9. For an index outside the color attachment list, or whose reference is
  \<^verbatim>\<open>VK_ATTACHMENT_UNUSED\<close>, \<^verbatim>\<open>getColorAttachmentFormat\<close> returns
  \<^verbatim>\<open>VK_FORMAT_UNDEFINED\<close>, and \<^verbatim>\<open>isColorAttachmentUsed\<close> and
  \<^verbatim>\<open>isColorAttachmentAlsoInputAttachment\<close> return false; the result is a value, so no
  vector has been read outside its bounds.
\<close>

theorem color_accessors_default:
  assumes "length (colorAttachments sp) \<le> unat colorAttIdx
           \<or> attachment (colorAttachments sp ! unat colorAttIdx) = VK_ATTACHMENT_UNUSED"
  shows "getColorAttachmentFormat rp sp colorAttIdx = Inr VK_FORMAT_UNDEFINED
       \<and> isColorAttachmentUsed sp colorAttIdx = Inr False
       \<and> isColorAttachmentAlsoInputAttachment sp colorAttIdx = Inr False"
  using assms
  by (auto simp: getColorAttachmentFormat_def isColorAttachmentUsed_def
      isColorAttachmentAlsoInputAttachment_def vec_at_def)

text \<open>
  C9 at a subpass with the color references 0 and unused: index 5 is out of range, index 1 is
  the unused reference.
\<close>

theorem color_accessors_default_witness:
  "(length (colorAttachments (color_subpass 0 0 [0, VK_ATTACHMENT_UNUSED])) \<le> unat (5::u32)
    \<or> attachment (colorAttachments (color_subpass 0 0 [0, VK_ATTACHMENT_UNUSED]) ! unat (5::u32))
       = VK_ATTACHMENT_UNUSED)
   \<and> getColorAttachmentFormat two_pass (color_subpass 0 0 [0, VK_ATTACHMENT_UNUSED]) 5
       = Inr VK_FORMAT_UNDEFINED
   \<and> isColorAttachmentUsed (color_subpass 0 0 [0, VK_ATTACHMENT_UNUSED]) 5 = Inr False
   \<and> isColorAttachmentAlsoInputAttachment (color_subpass 0 0 [0, VK_ATTACHMENT_UNUSED]) 5
       = Inr False
   \<and> attachment (colorAttachments (color_subpass 0 0 [0, VK_ATTACHMENT_UNUSED]) ! unat (1::u32))
       = VK_ATTACHMENT_UNUSED
   \<and> getColorAttachmentFormat two_pass (color_subpass 0 0 [0, VK_ATTACHMENT_UNUSED]) 1
       = Inr VK_FORMAT_UNDEFINED
   \<and> isColorAttachmentUsed (color_subpass 0 0 [0, VK_ATTACHMENT_UNUSED]) 1 = Inr False
   \<and> isColorAttachmentAlsoInputAttachment (color_subpass 0 0 [0, VK_ATTACHMENT_UNUSED]) 1
       = Inr False"
proof -
  let ?sp = "color_subpass 0 0 [0, VK_ATTACHMENT_UNUSED]"
  have h5: "length (colorAttachments ?sp) \<le> unat (5::u32)
            \<or> attachment (colorAttachments ?sp ! unat (5::u32)) = VK_ATTACHMENT_UNUSED"
    by (simp add: color_subpass_def bare_subpass_def)
  have h1: "attachment (colorAttachments ?sp ! unat (1::u32)) = VK_ATTACHMENT_UNUSED"
    by (simp add: color_subpass_def bare_subpass_def color_ref_def)
  then have h1': "length (colorAttachments ?sp) \<le> unat (1::u32)
            \<or> attachment (colorAttachments ?sp ! unat (1::u32)) = VK_ATTACHMENT_UNUSED" ..
  show ?thesis
    using h5 h1 color_accessors_default [OF h5, of two_pass]
      color_accessors_default [OF h1', of two_pass]
    by simp
qed

section \<open>\<^verbatim>\<open>shouldClearAttachment\<close>\<close>

text \<open>
  C3, as stated, fails for a multiview subpass. In the render pass whose subpass 0 renders view
  0 and whose subpass 1 renders views 0 and 1 to the same attachment, declared with load-op
  Clear, subpass 1 is not the first use of the attachment (its first-use mask is \<open>0b10\<close>, its
  view mask \<open>0b11\<close>), and \<^verbatim>\<open>shouldClearAttachment\<close> returns true for it.
\<close>

theorem should_clear_partial_first_use_counterexample:
  "shouldClearAttachment (example_attachment two_pass_multiview) (color_subpass 1 3 [0]) False
     = Inr True
   \<and> isFirstUseOfAttachment (example_attachment two_pass_multiview) (color_subpass 1 3 [0])
     = Inr False
   \<and> loadOp (info (example_attachment two_pass_multiview)) = VK_ATTACHMENT_LOAD_OP_CLEAR"
  by code_simp

text \<open>
  C3, amended. \<^verbatim>\<open>shouldClearAttachment(subpass, isStencil)\<close> returns true iff the declared
  load-op (the stencil load-op when \<open>isStencil\<close>) is Clear and, for a subpass without
  multiview, the subpass is the first use of the attachment (its index is the cached first-use
  index), or, for a multiview subpass, the cached first-use view mask of the attachment at that
  subpass is not zero. Without multiview, a subpass other than the first-use subpass never
  reports true.
\<close>

theorem should_clear_iff:
  "(shouldClearAttachment att subpass isStencil = Inr True \<longleftrightarrow>
      (if isStencil then stencilLoadOp (info att) else loadOp (info att))
        = VK_ATTACHMENT_LOAD_OP_CLEAR
      \<and> (if isMultiview subpass
         then unat (subpassIndex subpass) < length (firstUseViewMasks att)
              \<and> firstUseViewMasks att ! unat (subpassIndex subpass) \<noteq> 0
         else isFirstUseOfAttachment att subpass = Inr True))
   \<and> (\<not> isMultiview subpass \<and> subpassIndex subpass \<noteq> firstUseSubpassIdx att
        \<longrightarrow> shouldClearAttachment att subpass isStencil = Inr False)"
  by (auto simp: shouldClearAttachment_def isFirstUseOfAttachment_def vec_at_def Let_def)

text \<open>C3, amended, at the first and at the second subpass of a render pass without multiview.\<close>

theorem should_clear_iff_witness:
  "shouldClearAttachment (example_attachment two_pass) (color_subpass 0 0 [0]) False = Inr True
   \<and> isFirstUseOfAttachment (example_attachment two_pass) (color_subpass 0 0 [0]) = Inr True
   \<and> \<not> isMultiview (color_subpass 1 0 [0])
   \<and> subpassIndex (color_subpass 1 0 [0]) \<noteq> firstUseSubpassIdx (example_attachment two_pass)
   \<and> shouldClearAttachment (example_attachment two_pass) (color_subpass 1 0 [0]) False = Inr False"
proof -
  have a: "isFirstUseOfAttachment (example_attachment two_pass) (color_subpass 0 0 [0]) = Inr True"
    by code_simp
  have b: "\<not> isMultiview (color_subpass 0 0 [0])" by code_simp
  have c: "loadOp (info (example_attachment two_pass)) = VK_ATTACHMENT_LOAD_OP_CLEAR" by code_simp
  have d: "\<not> isMultiview (color_subpass 1 0 [0])" by code_simp
  have e: "subpassIndex (color_subpass 1 0 [0]) \<noteq> firstUseSubpassIdx (example_attachment two_pass)"
    by code_simp
  show ?thesis
    using a b c d e
      should_clear_iff [of "example_attachment two_pass" "color_subpass 0 0 [0]" False]
      should_clear_iff [of "example_attachment two_pass" "color_subpass 1 0 [0]" False]
    by simp
qed

section \<open>\<^verbatim>\<open>getMTLStoreAction\<close>\<close>

text \<open>
  C4, as stated, fails for a memoryless attachment: in the first of two subpasses that use
  the attachment, which is not its last use, without a resolve attachment, the store action is
  DontCare.
\<close>

theorem store_action_not_last_use_memoryless_counterexample:
  "isLastUseOfAttachment (example_attachment two_pass) (color_subpass 0 0 [0]) = Inr False
   \<and> getMTLStoreAction example_fromStoreOp instancing_device (example_attachment two_pass)
       (color_subpass 0 0 [0]) True True False False False False = Inr MTLStoreActionDontCare"
  by code_simp

text \<open>
  C4, amended. For an attachment that is not memoryless, whenever the subpass is not the last
  use of the attachment, or the store override is set, or the region rendered is not the entire
  attachment, \<^verbatim>\<open>getMTLStoreAction\<close> returns Store when no format-capable resolve attachment
  is present; with one it returns StoreAndMultisampleResolve on a device with the combined
  store-and-resolve action and MultisampleResolve on a device without it. It never returns
  DontCare, whatever the declared store-op.
\<close>

theorem store_action_persists:
  assumes "\<not> isMemorylessAttachment"
    and "storeOverride \<or> \<not> isRenderingEntireAttachment
         \<or> isLastUseOfAttachment att subpass = Inr False"
  shows "getMTLStoreAction fromStoreOp dev att subpass isRenderingEntireAttachment
           isMemorylessAttachment hasResolveAttachment canResolveFormat isStencil storeOverride
         = Inr (if hasResolveAttachment \<and> canResolveFormat
                then (if combinedStoreResolveAction dev
                      then MTLStoreActionStoreAndMultisampleResolve
                      else MTLStoreActionMultisampleResolve)
                else MTLStoreActionStore)
       \<and> getMTLStoreAction fromStoreOp dev att subpass isRenderingEntireAttachment
           isMemorylessAttachment hasResolveAttachment canResolveFormat isStencil storeOverride
         \<noteq> Inr MTLStoreActionDontCare"
  using assms by (auto simp: getMTLStoreAction_def)

text \<open>C4, amended, at the first of two subpasses using an attachment that is not memoryless.\<close>

theorem store_action_persists_witness:
  "\<not> False
   \<and> (False \<or> \<not> True
      \<or> isLastUseOfAttachment (example_attachment two_pass) (color_subpass 0 0 [0]) = Inr False)
   \<and> getMTLStoreAction example_fromStoreOp instancing_device (example_attachment two_pass)
       (color_subpass 0 0 [0]) True False False False False False = Inr MTLStoreActionStore"
proof -
  have h: "False \<or> \<not> True
      \<or> isLastUseOfAttachment (example_attachment two_pass) (color_subpass 0 0 [0]) = Inr False"
    by code_simp
  have n: "\<not> False" by simp
  show ?thesis
    using h store_action_persists [OF n h, of example_fromStoreOp instancing_device False False False]
    by simp
qed

text \<open>
  C5. For a memoryless attachment \<^verbatim>\<open>getMTLStoreAction\<close> returns DontCare when no resolve
  attachment is present and MultisampleResolve when one is, for every subpass, every declared
  store-op and every value of the other flags.
\<close>

theorem memoryless_store_action:
  assumes "isMemorylessAttachment"
  shows "getMTLStoreAction fromStoreOp dev att subpass isRenderingEntireAttachment
           isMemorylessAttachment hasResolveAttachment canResolveFormat isStencil storeOverride
         = Inr (if hasResolveAttachment then MTLStoreActionMultisampleResolve
                else MTLStoreActionDontCare)"
  using assms by (simp add: getMTLStoreAction_def)

text \<open>C5 without and with a resolve attachment.\<close>

theorem memoryless_store_action_witness:
  "getMTLStoreAction example_fromStoreOp instancing_device (example_attachment two_pass)
     (color_subpass 0 0 [0]) True True False True False True = Inr MTLStoreActionDontCare
   \<and> getMTLStoreAction example_fromStoreOp instancing_device (example_attachment two_pass)
     (color_subpass 0 0 [0]) True True True False False True
     = Inr MTLStoreActionMultisampleResolve"
  using memoryless_store_action [of True example_fromStoreOp instancing_device
      "example_attachment two_pass" "color_subpass 0 0 [0]" True False True False True]
    memoryless_store_action [of True example_fromStoreOp instancing_device
      "example_attachment two_pass" "color_subpass 0 0 [0]" True True False False True]
  by simp

section \<open>\<^verbatim>\<open>populateMTLRenderPassAttachmentDescriptor\<close>\<close>

text \<open>The store action is a value whenever the last-use query is.\<close>

lemma getMTLStoreAction_returns:
  assumes "isLastUseOfAttachment att subpass = Inr lastUse"
  shows "\<exists>sa. getMTLStoreAction fromStoreOp dev att subpass isRenderingEntireAttachment
           isMemorylessAttachment hasResolveAttachment canResolveFormat isStencil storeOverride
         = Inr sa"
  by (simp add: getMTLStoreAction_def assms)

text \<open>
  C6. Where the first-use and last-use queries of the subpass are defined,
  \<^verbatim>\<open>populateMTLRenderPassAttachmentDescriptor\<close> returns, and: when the load override is set,
  or the region rendered is not the entire attachment, or the subpass is not the first use of
  the attachment, the load action is Load, degraded to DontCare for a memoryless attachment;
  otherwise it is the native action of the declared load-op (the stencil load-op when
  \<open>isStencil\<close>), where again a memoryless attachment turns Load into DontCare and keeps every
  other action, Clear among them; and the function returns true exactly when the load action
  is Clear.
\<close>

theorem load_action_decision:
  assumes "isFirstUseOfAttachment att subpass = Inr firstUse"
    and "isLastUseOfAttachment att subpass = Inr lastUse"
  shows "\<exists>desc clear.
           populateMTLRenderPassAttachmentDescriptor fromLoadOp fromStoreOp dev att mtlAttDesc
             subpass imageView isRenderingEntireAttachment hasResolveAttachment canResolveFormat
             isStencil loadOverride = Inr (desc, clear)
         \<and> ((loadOverride \<or> \<not> isRenderingEntireAttachment \<or> \<not> firstUse)
              \<and> \<not> isMemoryless imageView \<longrightarrow> loadAction desc = MTLLoadActionLoad)
         \<and> ((loadOverride \<or> \<not> isRenderingEntireAttachment \<or> \<not> firstUse)
              \<and> isMemoryless imageView \<longrightarrow> loadAction desc = MTLLoadActionDontCare)
         \<and> (\<not> loadOverride \<and> isRenderingEntireAttachment \<and> firstUse
              \<and> \<not> (isMemoryless imageView
                     \<and> fromLoadOp (if isStencil then stencilLoadOp (info att)
                                    else loadOp (info att)) = MTLLoadActionLoad)
              \<longrightarrow> loadAction desc = fromLoadOp (if isStencil then stencilLoadOp (info att)
                                                   else loadOp (info att)))
         \<and> (\<not> loadOverride \<and> isRenderingEntireAttachment \<and> firstUse
              \<and> isMemoryless imageView
              \<and> fromLoadOp (if isStencil then stencilLoadOp (info att)
                             else loadOp (info att)) = MTLLoadActionLoad
              \<longrightarrow> loadAction desc = MTLLoadActionDontCare)
         \<and> (clear \<longleftrightarrow> loadAction desc = MTLLoadActionClear)"
proof -
  obtain sa where sa:
    "(if deferredStoreActions dev then Inr MTLStoreActionUnknown
      else if isStencilFormat imageView \<and> \<not> isStencil \<and> \<not> isDepthFormat imageView
      then Inr MTLStoreActionDontCare
      else getMTLStoreAction fromStoreOp dev att subpass isRenderingEntireAttachment
             (isMemoryless imageView) hasResolveAttachment canResolveFormat isStencil False)
     = Inr sa"
    using getMTLStoreAction_returns [OF assms(2), of fromStoreOp dev isRenderingEntireAttachment
        "isMemoryless imageView" hasResolveAttachment canResolveFormat isStencil False]
    by (cases "deferredStoreActions dev";
        cases "isStencilFormat imageView \<and> \<not> isStencil \<and> \<not> isDepthFormat imageView") auto
  show ?thesis
    unfolding populateMTLRenderPassAttachmentDescriptor_def Let_def
    by (simp only: sa assms(1)) auto
qed

text \<open>
  C6 at the first subpass of a render pass whose attachment is declared with load-op Clear
  and is memoryless: Clear without the load override, DontCare with it.
\<close>

theorem load_action_decision_witness:
  "isFirstUseOfAttachment (example_attachment two_pass) (color_subpass 0 0 [0]) = Inr True
   \<and> isLastUseOfAttachment (example_attachment two_pass) (color_subpass 0 0 [0]) = Inr False
   \<and> (\<exists>desc clear.
        populateMTLRenderPassAttachmentDescriptor example_fromLoadOp example_fromStoreOp
          instancing_device (example_attachment two_pass)
          \<lparr>loadAction = MTLLoadActionDontCare, storeAction = MTLStoreActionDontCare\<rparr>
          (color_subpass 0 0 [0])
          \<lparr>isMemoryless = True, isDepthFormat = False, isStencilFormat = False\<rparr>
          True False False False False = Inr (desc, clear)
        \<and> loadAction desc = MTLLoadActionClear \<and> clear)
   \<and> (\<exists>desc clear.
        populateMTLRenderPassAttachmentDescriptor example_fromLoadOp example_fromStoreOp
          instancing_device (example_attachment two_pass)
          \<lparr>loadAction = MTLLoadActionDontCare, storeAction = MTLStoreActionDontCare\<rparr>
          (color_subpass 0 0 [0])
          \<lparr>isMemoryless = True, isDepthFormat = False, isStencilFormat = False\<rparr>
          True False False False True = Inr (desc, clear)
        \<and> loadAction desc = MTLLoadActionDontCare \<and> \<not> clear)"
proof -
  have a: "isFirstUseOfAttachment (example_attachment two_pass) (color_subpass 0 0 [0]) = Inr True"
    by code_simp
  have b: "isLastUseOfAttachment (example_attachment two_pass) (color_subpass 0 0 [0]) = Inr False"
    by code_simp
  have c: "loadOp (info (example_attachment two_pass)) = VK_ATTACHMENT_LOAD_OP_CLEAR"
    by code_simp
  have m: "example_fromLoadOp VK_ATTACHMENT_LOAD_OP_CLEAR = MTLLoadActionClear"
    by (simp add: example_fromLoadOp_def)
  show ?thesis
    using a b
      load_action_decision [OF a b, of example_fromLoadOp example_fromStoreOp instancing_device
        "\<lparr>loadAction = MTLLoadActionDontCare, storeAction = MTLStoreActionDontCare\<rparr>"
        "\<lparr>isMemoryless = True, isDepthFormat = False, isStencilFormat = False\<rparr>"
        True False False False False]
      load_action_decision [OF a b, of example_fromLoadOp example_fromStoreOp instancing_device
        "\<lparr>loadAction = MTLLoadActionDontCare, storeAction = MTLStoreActionDontCare\<rparr>"
        "\<lparr>isMemoryless = True, isDepthFormat = False, isStencilFormat = False\<rparr>"
        True False False False True]
    by (simp add: c m) auto
qed

section \<open>First-use and last-use view masks\<close>

text \<open>
  The two mask vectors after \<^verbatim>\<open>validateFormat\<close> depend only on the view masks of the
  multiview subpasses that reference the attachment.
\<close>

lemma validateFormat_for_masks:
  "validateFormat_for pixFmts sps (att, err) = (att', err') \<Longrightarrow>
   attachmentIndex att' = attachmentIndex att
   \<and> firstUseViewMasks att'
       = fold push_first_use
           (map viewMask
              (filter (\<lambda>sp. getRequiredFormatCapabilitiesForAttachmentAt sp (attachmentIndex att)
                               \<noteq> {} \<and> isMultiview sp) sps))
           (firstUseViewMasks att)
   \<and> lastUseViewMasks att'
       = fold push_last_use
           (map viewMask
              (filter (\<lambda>sp. getRequiredFormatCapabilitiesForAttachmentAt sp (attachmentIndex att)
                               \<noteq> {} \<and> isMultiview sp) sps))
           (lastUseViewMasks att)"
proof (induction sps arbitrary: att err)
  case Nil
  then show ?case by simp
next
  case (Cons subPass rest)
  let ?req = "getRequiredFormatCapabilitiesForAttachmentAt subPass (attachmentIndex att)"
  show ?case
  proof (cases "?req \<noteq> {}")
    case False
    then have "validateFormat_for pixFmts rest (att, err) = (att', err')"
      using Cons.prems by simp
    from Cons.IH [OF this] False show ?thesis by simp
  next
    case True
    show ?thesis
    proof (cases "isMultiview subPass")
      case mv: True
      let ?att1 = "att\<lparr>firstUseSubpassIdx := min (subpassIndex subPass) (firstUseSubpassIdx att),
                        lastUseSubpassIdx := max (subpassIndex subPass) (lastUseSubpassIdx att)\<rparr>"
      let ?att2 = "?att1\<lparr>lastUseViewMasks := push_last_use (viewMask subPass) (lastUseViewMasks att),
                          firstUseViewMasks := push_first_use (viewMask subPass) (firstUseViewMasks att)\<rparr>"
      obtain e where "validateFormat_for pixFmts rest (?att2, e) = (att', err')"
        using Cons.prems True mv
        by (simp add: Let_def push_first_use_def push_last_use_def)
      from Cons.IH [OF this] True mv show ?thesis by simp
    next
      case nmv: False
      let ?att1 = "att\<lparr>firstUseSubpassIdx := min (subpassIndex subPass) (firstUseSubpassIdx att),
                        lastUseSubpassIdx := max (subpassIndex subPass) (lastUseSubpassIdx att)\<rparr>"
      obtain e where "validateFormat_for pixFmts rest (?att1, e) = (att', err')"
        using Cons.prems True nmv by (simp add: Let_def)
      from Cons.IH [OF this] True nmv show ?thesis by simp
    qed
  qed
qed

lemma new_attachment_masks:
  assumes "new_MVKRenderPassAttachment pixFmts undef rp pCreateInfo = Inr (att, err)"
  shows "attachmentIndex att = of_nat (length (attachments rp))"
    and "firstUseViewMasks att
         = fold push_first_use (referencing_view_masks rp (of_nat (length (attachments rp)))) []"
    and "lastUseViewMasks att
         = fold push_last_use (referencing_view_masks rp (of_nat (length (attachments rp)))) []"
proof -
  let ?att0 = "\<lparr>info = pCreateInfo, attachmentIndex = of_nat (length (attachments rp)),
                firstUseSubpassIdx = undef, lastUseSubpassIdx = 0,
                firstUseViewMasks = [], lastUseViewMasks = []\<rparr>"
  obtain e where r: "validateFormat_for pixFmts (subpasses rp) (?att0, e) = (att, err)"
    using assms
    by (auto simp: new_MVKRenderPassAttachment_def validateFormat_def Let_def
        split: sum.splits)
  from validateFormat_for_masks [OF r]
  show "attachmentIndex att = of_nat (length (attachments rp))"
    and "firstUseViewMasks att
         = fold push_first_use (referencing_view_masks rp (of_nat (length (attachments rp)))) []"
    and "lastUseViewMasks att
         = fold push_last_use (referencing_view_masks rp (of_nat (length (attachments rp)))) []"
    unfolding referencing_view_masks_def by simp_all
qed

lemma bit_strip: "bit (fold (\<lambda>m v. v AND NOT m) fs (vm::u32)) n \<longleftrightarrow> bit vm n \<and> (\<forall>m\<in>set fs. \<not> bit m n)"
  by (induction fs arbitrary: vm) (auto simp: bit_and_iff bit_not_iff dest: bit_imp_le_length)

lemma first_use_length: "length (fold push_first_use vms fs) = length fs + length vms"
  by (induction vms arbitrary: fs) (simp_all add: push_first_use_def)

lemma last_use_length: "length (fold push_last_use vms ls) = length ls + length vms"
  by (induction vms arbitrary: ls) (simp_all add: push_last_use_def)

lemma first_use_bits:
  "k < length vms \<Longrightarrow>
   bit (fold push_first_use vms [] ! k) n \<longleftrightarrow> bit (vms ! k) n \<and> (\<forall>j<k. \<not> bit (vms ! j) n)"
proof (induction vms arbitrary: k rule: rev_induct)
  case Nil
  then show ?case by simp
next
  case (snoc vm vms)
  let ?F = "fold push_first_use vms []"
  have len: "length ?F = length vms" by (simp add: first_use_length)
  have F: "fold push_first_use (vms @ [vm]) [] = ?F @ [fold (\<lambda>m v. v AND NOT m) ?F vm]"
    by (simp add: push_first_use_def)
  show ?case
  proof (cases "k < length vms")
    case True
    have "fold push_first_use (vms @ [vm]) [] ! k = ?F ! k"
      using True by (simp only: F) (simp add: nth_append len)
    moreover have "(vms @ [vm]) ! k = vms ! k" using True by (simp add: nth_append)
    moreover have "(vms @ [vm]) ! j = vms ! j" if "j < k" for j
      using that True by (simp add: nth_append)
    ultimately show ?thesis using snoc.IH [OF True] by simp
  next
    case False
    then have k: "k = length vms" using snoc.prems by simp
    have e: "fold push_first_use (vms @ [vm]) [] ! k = fold (\<lambda>m v. v AND NOT m) ?F vm"
      by (simp only: F) (simp add: k nth_append len)
    have "(\<forall>m\<in>set ?F. \<not> bit m n) \<longleftrightarrow> (\<forall>j<length vms. \<not> bit (vms ! j) n)"
    proof
      assume a: "\<forall>m\<in>set ?F. \<not> bit m n"
      show "\<forall>j<length vms. \<not> bit (vms ! j) n"
      proof (intro allI impI)
        fix j assume "j < length vms"
        then show "\<not> bit (vms ! j) n"
        proof (induction j rule: less_induct)
          case (less j)
          have "?F ! j \<in> set ?F" using less.prems len by simp
          then have "\<not> bit (?F ! j) n" using a by blast
          moreover have "\<forall>i<j. \<not> bit (vms ! i) n" using less by simp
          ultimately show ?case using snoc.IH [OF less.prems] by simp
        qed
      qed
    next
      assume a: "\<forall>j<length vms. \<not> bit (vms ! j) n"
      show "\<forall>m\<in>set ?F. \<not> bit m n"
      proof
        fix m assume "m \<in> set ?F"
        then obtain j where j: "j < length vms" "m = ?F ! j"
          using len by (metis in_set_conv_nth)
        then show "\<not> bit m n" using snoc.IH [OF j(1)] a by simp
      qed
    qed
    then have "bit (fold (\<lambda>m v. v AND NOT m) ?F vm) n
               \<longleftrightarrow> bit vm n \<and> (\<forall>j<length vms. \<not> bit (vms ! j) n)"
      by (simp only: bit_strip)
    then have "bit (fold push_first_use (vms @ [vm]) [] ! k) n
               \<longleftrightarrow> bit vm n \<and> (\<forall>j<length vms. \<not> bit (vms ! j) n)"
      by (simp only: e)
    then show ?thesis by (simp add: k nth_append del: fold_append)
  qed
qed

lemma last_use_bits:
  "k < length vms \<Longrightarrow>
   bit (fold push_last_use vms [] ! k) n
   \<longleftrightarrow> bit (vms ! k) n \<and> (\<forall>j. k < j \<and> j < length vms \<longrightarrow> \<not> bit (vms ! j) n)"
proof (induction vms arbitrary: k rule: rev_induct)
  case Nil
  then show ?case by simp
next
  case (snoc vm vms)
  let ?L = "fold push_last_use vms []"
  have len: "length ?L = length vms" by (simp add: last_use_length)
  have L: "fold push_last_use (vms @ [vm]) [] = map (\<lambda>m. m AND NOT vm) ?L @ [vm]"
    by (simp add: push_last_use_def)
  show ?case
  proof (cases "k < length vms")
    case True
    have "(\<forall>j. k < j \<and> j < length (vms @ [vm]) \<longrightarrow> \<not> bit ((vms @ [vm]) ! j) n)
          \<longleftrightarrow> (\<forall>j. k < j \<and> j < length vms \<longrightarrow> \<not> bit (vms ! j) n) \<and> \<not> bit vm n"
    proof -
      have "\<And>j. j < length (vms @ [vm]) \<longleftrightarrow> j < length vms \<or> j = length vms" by auto
      then show ?thesis using True by (auto simp: nth_append)
    qed
    moreover have "fold push_last_use (vms @ [vm]) [] ! k = ?L ! k AND NOT vm"
      using True by (simp only: L) (simp add: nth_append len)
    moreover have "bit (?L ! k AND NOT vm) n \<longleftrightarrow> bit (?L ! k) n \<and> \<not> bit vm n"
      by (auto simp: bit_and_iff bit_not_iff dest: bit_imp_le_length)
    moreover have "(vms @ [vm]) ! k = vms ! k" using True by (simp add: nth_append)
    ultimately show ?thesis using snoc.IH [OF True] by (simp only:) blast
  next
    case False
    then have k: "k = length vms" using snoc.prems by simp
    have "fold push_last_use (vms @ [vm]) [] ! k = vm"
      by (simp only: L) (simp add: k nth_append len)
    then show ?thesis by (auto simp add: k nth_append simp del: fold_append)
  qed
qed

text \<open>
  What \<^verbatim>\<open>validateFormat\<close> computes. After the construction of an attachment its first-use
  and last-use mask vectors have one entry for each multiview subpass that references the
  attachment, in the order of the subpasses. A view is in the first-use entry of such a
  subpass iff it is in the view mask of that subpass and in the view mask of no earlier
  subpass that references the attachment; it is in the last-use entry iff it is in the view
  mask of that subpass and of no later one. The first-use entries are pairwise disjoint, and
  so are the last-use entries.
\<close>

lemma view_masks_of_referencing_subpasses:
  assumes "new_MVKRenderPassAttachment pixFmts undef rp pCreateInfo = Inr (att, err)"
  defines "vms \<equiv> referencing_view_masks rp (attachmentIndex att)"
  shows "length (firstUseViewMasks att) = length vms
       \<and> length (lastUseViewMasks att) = length vms
       \<and> (\<forall>k<length vms. \<forall>view.
            bit (firstUseViewMasks att ! k) view
            \<longleftrightarrow> bit (vms ! k) view \<and> (\<forall>j<k. \<not> bit (vms ! j) view))
       \<and> (\<forall>k<length vms. \<forall>view.
            bit (lastUseViewMasks att ! k) view
            \<longleftrightarrow> bit (vms ! k) view \<and> (\<forall>j. k < j \<and> j < length vms \<longrightarrow> \<not> bit (vms ! j) view))
       \<and> (\<forall>i j. i < j \<and> j < length vms
            \<longrightarrow> firstUseViewMasks att ! i AND firstUseViewMasks att ! j = 0)
       \<and> (\<forall>i j. i < j \<and> j < length vms
            \<longrightarrow> lastUseViewMasks att ! i AND lastUseViewMasks att ! j = 0)"
proof -
  note m = new_attachment_masks [OF assms(1)]
  have vms: "vms = referencing_view_masks rp (of_nat (length (attachments rp)))"
    by (simp add: vms_def m(1))
  have f: "firstUseViewMasks att = fold push_first_use vms []" by (simp add: m(2) vms)
  have l: "lastUseViewMasks att = fold push_last_use vms []" by (simp add: m(3) vms)
  have fd: "firstUseViewMasks att ! i AND firstUseViewMasks att ! j = 0"
    if "i < j \<and> j < length vms" for i j
  proof (rule bit_eqI)
    fix n
    have "\<not> (bit (firstUseViewMasks att ! i) n \<and> bit (firstUseViewMasks att ! j) n)"
      using that first_use_bits [of i vms n] first_use_bits [of j vms n] by (auto simp: f)
    then show "bit (firstUseViewMasks att ! i AND firstUseViewMasks att ! j) n = bit (0::u32) n"
      by (simp add: bit_and_iff)
  qed
  have ld: "lastUseViewMasks att ! i AND lastUseViewMasks att ! j = 0"
    if "i < j \<and> j < length vms" for i j
  proof (rule bit_eqI)
    fix n
    have "\<not> (bit (lastUseViewMasks att ! i) n \<and> bit (lastUseViewMasks att ! j) n)"
      using that last_use_bits [of i vms n] last_use_bits [of j vms n] by (auto simp: l)
    then show "bit (lastUseViewMasks att ! i AND lastUseViewMasks att ! j) n = bit (0::u32) n"
      by (simp add: bit_and_iff)
  qed
  show ?thesis
    using fd ld first_use_bits [of _ vms] last_use_bits [of _ vms]
    by (simp add: f l first_use_length last_use_length)
qed

text \<open>The constructor returns for each of the example render passes.\<close>

lemma example_attachment_constructed:
  "new_MVKRenderPassAttachment example_pixel_formats 1073741823 two_pass clear_description
     = Inr (example_attachment two_pass, False)
   \<and> new_MVKRenderPassAttachment example_pixel_formats 1073741823 two_pass_multiview
       clear_description = Inr (example_attachment two_pass_multiview, False)
   \<and> new_MVKRenderPassAttachment example_pixel_formats 1073741823 three_pass_multiview
       clear_description = Inr (example_attachment three_pass_multiview, False)
   \<and> new_MVKRenderPassAttachment example_pixel_formats 1073741823 late_use_multiview
       clear_description = Inr (example_attachment late_use_multiview, False)"
  by code_simp

text \<open>
  C7. The claim is that after the construction of a multiview render pass the first-use view
  masks of an attachment, one per subpass, are pairwise disjoint and hold each view at the
  earliest subpass that references the attachment with that view, and the last-use masks
  likewise at the latest. The code keeps the mask of a subpass at the index of the subpass:
  \<^verbatim>\<open>isFirstUseOfAttachment\<close>, \<^verbatim>\<open>isLastUseOfAttachment\<close>, \<^verbatim>\<open>shouldClearAttachment\<close> and
  \<^verbatim>\<open>populateMultiviewClearRects\<close> read \<^verbatim>\<open>_firstUseViewMasks[subpass->_subpassIndex]\<close>, and
  \<^verbatim>\<open>validateFormat\<close> reserves one entry per subpass. But \<^verbatim>\<open>validateFormat\<close> appends an
  entry only for a subpass that references the attachment. In the render pass with three
  subpasses, where attachment 0 is used by subpass 0 (view 0) and subpass 2 (views 0 and 1)
  and not by subpass 1, the vectors of attachment 0 have two entries: the first-use mask with
  view 1 is at index 1, the index of the subpass that does not reference the attachment, and
  index 2, the index of the subpass that first uses view 1, is outside both vectors, so that
  the queries for subpass 2 read out of range.
\<close>

theorem view_masks_not_at_subpass_index:
  "new_MVKRenderPassAttachment example_pixel_formats 1073741823 three_pass_multiview
     clear_description = Inr (example_attachment three_pass_multiview, False)
   \<and> getRequiredFormatCapabilitiesForAttachmentAt (color_subpass 1 2 [1])
       (attachmentIndex (example_attachment three_pass_multiview)) = {}
   \<and> getRequiredFormatCapabilitiesForAttachmentAt (color_subpass 2 3 [0])
       (attachmentIndex (example_attachment three_pass_multiview)) = {kMVKMTLFmtCapsColorAtt}
   \<and> firstUseViewMasks (example_attachment three_pass_multiview) = [1, 2]
   \<and> lastUseViewMasks (example_attachment three_pass_multiview) = [0, 3]
   \<and> vec_at (firstUseViewMasks (example_attachment three_pass_multiview))
       (subpassIndex (color_subpass 1 2 [1])) = Inr 2
   \<and> vec_at (lastUseViewMasks (example_attachment three_pass_multiview))
       (subpassIndex (color_subpass 1 2 [1])) = Inr 3
   \<and> vec_at (firstUseViewMasks (example_attachment three_pass_multiview))
       (subpassIndex (color_subpass 2 3 [0])) = Inl OutOfRange
   \<and> vec_at (lastUseViewMasks (example_attachment three_pass_multiview))
       (subpassIndex (color_subpass 2 3 [0])) = Inl OutOfRange
   \<and> isFirstUseOfAttachment (example_attachment three_pass_multiview) (color_subpass 2 3 [0])
       = Inl OutOfRange
   \<and> isLastUseOfAttachment (example_attachment three_pass_multiview) (color_subpass 2 3 [0])
       = Inl OutOfRange
   \<and> shouldClearAttachment (example_attachment three_pass_multiview) (color_subpass 2 3 [0])
         False = Inl OutOfRange"
  by code_simp

text \<open>
  The shift also gives wrong answers inside the vectors. Where attachment 0 is used by
  subpasses 1 and 2 and not by subpass 0, all with view 0, the entries of subpass 2 are at
  index 1: subpass 1 is taken to be the last use of the attachment although subpass 2 uses it
  too, and with the declared store-op DontCare its contents are not stored at the end of
  subpass 1.
\<close>

lemma late_use_last_use_example:
  "firstUseViewMasks (example_attachment late_use_multiview) = [1, 0]
   \<and> lastUseViewMasks (example_attachment late_use_multiview) = [0, 1]
   \<and> isLastUseOfAttachment (example_attachment late_use_multiview) (color_subpass 1 1 [0])
       = Inr True
   \<and> getMTLStoreAction example_fromStoreOp instancing_device
       (example_attachment late_use_multiview) (color_subpass 1 1 [0])
       True False False False False False = Inr MTLStoreActionDontCare"
  by code_simp

end
